theory Spec2Isabelle
  imports Complex_Main
begin

section \<open>JavaScript values and strings\<close>

text \<open>
  A JavaScript string is a \<^typ>\<open>string\<close>: each \<^typ>\<open>char\<close> stands for the UTF-16 code
  unit of the same number, so the strings of the model are those whose code units lie
  below 256. The raw fields of a patient record are JSON primitives or absent
  (\<open>undefined\<close>), as in the data model of the specification.

  A JavaScript Number is an IEEE binary64 value: not-a-number, an infinity, or a finite
  value, kept here as the rational it denotes (the two zeros compare equal in the
  source and are one value here).
\<close>

datatype jsnum = NaN | NegInf | Fin rat | PosInf

datatype jsval = JUndefined | JNull | JBool bool | JNum jsnum | JStr string

text \<open>\<open>!v\<close> is false exactly on the truthy values.\<close>

fun truthy :: "jsval \<Rightarrow> bool" where
  "truthy JUndefined = False"
| "truthy JNull = False"
| "truthy (JBool b) = b"
| "truthy (JNum x) = (x \<noteq> NaN \<and> x \<noteq> Fin 0)"
| "truthy (JStr s) = (s \<noteq> [])"

text \<open>\<open>typeof v === 'string'\<close>\<close>

fun is_string :: "jsval \<Rightarrow> bool" where
  "is_string (JStr s) = True"
| "is_string v = False"

text \<open>The pattern class \<open>\d\<close>: the ten ASCII digits.\<close>

definition is_digit :: "char \<Rightarrow> bool" where
  "is_digit c = (let n = (of_char c :: nat) in 48 \<le> n \<and> n \<le> 57)"

definition digit_val :: "char \<Rightarrow> nat" where
  "digit_val c = of_char c - 48"

text \<open>The value of a string of decimal digits, most significant digit first.\<close>

definition dec :: "string \<Rightarrow> nat" where
  "dec ds = foldl (\<lambda>n c. 10 * n + digit_val c) 0 ds"

text \<open>
  White space as \<open>String.prototype.trim\<close>, \<open>parseInt\<close> and \<open>parseFloat\<close> skip it: TAB, LF,
  VT, FF, CR, SPACE and NO-BREAK SPACE are the white space and line terminator code
  units below 256.
\<close>

definition is_ws :: "char \<Rightarrow> bool" where
  "is_ws c = ((of_char c :: nat) \<in> {9, 10, 11, 12, 13, 32, 160})"

definition trim :: "string \<Rightarrow> string" where
  "trim s = rev (dropWhile is_ws (rev (dropWhile is_ws s)))"

text \<open>
  \<open>String.prototype.toUpperCase\<close>. The source only matches the result against patterns
  made of ASCII capitals, \<open>/\<close> and \<open>_\<close>; below 256 the letters \<open>a\<close> to \<open>z\<close> are the only code
  units whose upper case contains one of these, so every other code unit is left as it is.
\<close>

definition upper_char :: "char \<Rightarrow> char" where
  "upper_char c =
     (case map_of (zip ''abcdefghijklmnopqrstuvwxyz'' ''ABCDEFGHIJKLMNOPQRSTUVWXYZ'') c of
        Some u \<Rightarrow> u
      | None \<Rightarrow> c)"

definition toUpperCase :: "string \<Rightarrow> string" where
  "toUpperCase s = map upper_char s"

text \<open>An unanchored pattern that is a literal word: does the word occur in the string?\<close>

fun contains :: "string \<Rightarrow> string \<Rightarrow> bool" where
  "contains w [] = (w = [])"
| "contains w (c # cs) = (take (length w) (c # cs) = w \<or> contains w cs)"

text \<open>An optional sign at the head of a string: whether it is a minus, and the rest.\<close>

definition read_sign :: "string \<Rightarrow> bool \<times> string" where
  "read_sign t =
     (case t of
        [] \<Rightarrow> (False, t)
      | c # r \<Rightarrow> if c = CHR ''-'' then (True, r)
                 else if c = CHR ''+'' then (False, r)
                 else (False, t))"

text \<open>
  \<open>parseInt(s, 10)\<close> on a string: leading white space is skipped, a sign is read, then the
  longest run of decimal digits; without a digit the result is \<open>NaN\<close>, here \<open>None\<close>. The
  source compares the result only with integer constants below \<open>2^53\<close>; rounding to
  binary64 is monotone and exact on these, so the integer itself is kept.
\<close>

definition parseInt10 :: "string \<Rightarrow> int option" where
  "parseInt10 s =
     (let (neg, u) = read_sign (dropWhile is_ws s);
          ds = takeWhile is_digit u
      in if ds = [] then None
         else Some (if neg then - int (dec ds) else int (dec ds)))"


section \<open>Blood pressure\<close>

text \<open>The pattern \<open>/^(\d+)\/(\d+)$/\<close>: the two groups of a match.\<close>

definition match_bp :: "string \<Rightarrow> (string \<times> string) option" where
  "match_bp s =
     (let a = takeWhile is_digit s
      in case dropWhile is_digit s of
           [] \<Rightarrow> None
         | c # b \<Rightarrow> if c = CHR ''/'' \<and> a \<noteq> [] \<and> b \<noteq> [] \<and> list_all is_digit b
                    then Some (a, b) else None)"

record bp_reading =
  systolic :: int
  diastolic :: int

definition parseBP :: "jsval \<Rightarrow> bp_reading option" where
  "parseBP bp =
     (case bp of
        JStr s \<Rightarrow>
          if \<not> truthy bp then None
          else if toUpperCase s \<in> set [''INVALID'', ''N/A'', ''NULL'', ''UNDEFINED'', ''ERROR'']
          then None
          else (case match_bp s of
                  None \<Rightarrow> None
                | Some (a, b) \<Rightarrow>
                    (case (parseInt10 a, parseInt10 b) of
                       (Some sy, Some di) \<Rightarrow> Some \<lparr>systolic = sy, diastolic = di\<rparr>
                     | _ \<Rightarrow> None))
      | _ \<Rightarrow> None)"

record risk =
  score :: int
  hasIssue :: bool

text \<open>
  The source declares \<open>getBPRisk\<close> twice. Function declarations are hoisted and the later
  one replaces the earlier, so every call runs the second declaration. The first
  (lines 29 to 58) is kept under another name.
\<close>

definition getBPRisk_shadowed :: "jsval \<Rightarrow> risk" where
  "getBPRisk_shadowed bp =
     (case parseBP bp of
        None \<Rightarrow> \<lparr>score = 0, hasIssue = True\<rparr>
      | Some p \<Rightarrow>
          if systolic p < 120 \<and> diastolic p < 80 then \<lparr>score = 1, hasIssue = False\<rparr>
          else if systolic p \<ge> 120 \<and> systolic p \<le> 129 \<and> diastolic p < 80
          then \<lparr>score = 2, hasIssue = False\<rparr>
          else if (systolic p \<ge> 130 \<and> systolic p \<le> 139) \<or> (diastolic p \<ge> 80 \<and> diastolic p \<le> 89)
          then \<lparr>score = 3, hasIssue = False\<rparr>
          else if systolic p \<ge> 140 \<or> diastolic p \<ge> 90 then \<lparr>score = 4, hasIssue = False\<rparr>
          else \<lparr>score = 1, hasIssue = False\<rparr>)"

definition getBPRisk :: "jsval \<Rightarrow> risk" where
  "getBPRisk bp =
     (case parseBP bp of
        None \<Rightarrow> \<lparr>score = 0, hasIssue = True\<rparr>
      | Some p \<Rightarrow>
          if systolic p \<ge> 140 \<or> diastolic p \<ge> 90 then \<lparr>score = 3, hasIssue = False\<rparr>
          else if (systolic p \<ge> 130 \<and> systolic p \<le> 139) \<or> (diastolic p \<ge> 80 \<and> diastolic p \<le> 89)
          then \<lparr>score = 2, hasIssue = False\<rparr>
          else if systolic p \<ge> 120 \<and> systolic p \<le> 129 \<and> diastolic p < 80
          then \<lparr>score = 1, hasIssue = False\<rparr>
          else if systolic p < 120 \<and> diastolic p < 80 then \<lparr>score = 0, hasIssue = False\<rparr>
          else \<lparr>score = 0, hasIssue = False\<rparr>)"

text \<open>
  The priority table of the specification (section 4.2), written from its words: the
  first rule that matches gives the score.
\<close>

definition bp_priority_score :: "int \<Rightarrow> int \<Rightarrow> int" where
  "bp_priority_score s d =
     (if s \<ge> 140 \<or> d \<ge> 90 then 3
      else if s \<in> {130..139} \<or> d \<in> {80..89} then 2
      else if s \<in> {120..129} \<and> d < 80 then 1
      else 0)"


section \<open>Numbers\<close>

text \<open>Rounding a rational to an integer, to nearest, ties to even.\<close>

definition round_half_even :: "rat \<Rightarrow> int" where
  "round_half_even q =
     (let f = \<lfloor>q\<rfloor>; r = q - of_int f
      in if r < 1 / 2 then f
         else if 1 / 2 < r then f + 1
         else if even f then f else f + 1)"

fun ilog2 :: "nat \<Rightarrow> nat" where
  "ilog2 n = (if n < 2 then 0 else Suc (ilog2 (n div 2)))"

declare ilog2.simps [simp del]

text \<open>For \<open>0 < q\<close>, the integer \<open>k\<close> with \<open>2^k \<le> q < 2^(k+1)\<close>.\<close>

definition binade :: "rat \<Rightarrow> int" where
  "binade q =
     (if 1 \<le> q then int (ilog2 (nat \<lfloor>q\<rfloor>))
      else - int (Suc (ilog2 (nat \<lceil>1 / q\<rceil> - 1))))"

text \<open>
  The Number value of a rational: the nearest binary64 value, ties to even. A binary64
  value has 53 significant bits, its least bit is worth at least \<open>2^-1074\<close>, and what
  rounds to \<open>2^1024\<close> or beyond is an infinity.
\<close>

definition to_double :: "rat \<Rightarrow> jsnum" where
  "to_double q =
     (if q = 0 then Fin 0
      else let a = \<bar>q\<bar>;
               e = max (binade a - 52) (- 1074);
               v = of_int (round_half_even (a / 2 powi e)) * 2 powi e
           in if 2 ^ 1024 \<le> v then (if q < 0 then NegInf else PosInf)
              else Fin (if q < 0 then - v else v))"

text \<open>\<open>a <= b\<close> and \<open>a >= b\<close> on Numbers: false as soon as one side is \<open>NaN\<close>.\<close>

fun js_le :: "jsnum \<Rightarrow> jsnum \<Rightarrow> bool" where
  "js_le NaN b = False"
| "js_le a NaN = False"
| "js_le NegInf b = True"
| "js_le a PosInf = True"
| "js_le (Fin x) (Fin y) = (x \<le> y)"
| "js_le a b = False"

definition js_ge :: "jsnum \<Rightarrow> jsnum \<Rightarrow> bool" where
  "js_ge a b = js_le b a"

definition isNaN :: "jsnum \<Rightarrow> bool" where
  "isNaN x = (x = NaN)"

text \<open>
  The conversion of a value to a string, which \<open>parseFloat\<close> and \<open>parseInt\<close> apply to
  their argument. The runtime's conversion of a Number to a string is not part of the
  repository; it is the parameter \<open>ts\<close>.
\<close>

fun ToString :: "(jsnum \<Rightarrow> string) \<Rightarrow> jsval \<Rightarrow> string" where
  "ToString ts JUndefined = ''undefined''"
| "ToString ts JNull = ''null''"
| "ToString ts (JBool b) = (if b then ''true'' else ''false'')"
| "ToString ts (JNum x) = ts x"
| "ToString ts (JStr s) = s"

text \<open>
  The exponent part at the head of what follows the digits: \<open>e\<close> or \<open>E\<close>, an optional sign
  and at least one digit. Anything else is no exponent part and counts as exponent 0.
\<close>

definition read_exponent :: "string \<Rightarrow> int" where
  "read_exponent r =
     (case r of
        [] \<Rightarrow> 0
      | c # r1 \<Rightarrow>
          if c = CHR ''e'' \<or> c = CHR ''E''
          then (let (neg, r2) = read_sign r1; ds = takeWhile is_digit r2
                in if ds = [] then 0
                   else if neg then - int (dec ds) else int (dec ds))
          else 0)"

text \<open>
  \<open>parseFloat\<close> on a string: leading white space is skipped and the longest prefix that
  is a decimal literal is converted; what follows the prefix is ignored, and without
  such a prefix the result is \<open>NaN\<close>. A decimal literal is an optional sign followed by
  \<open>Infinity\<close>, or by digits with an optional fraction and an optional exponent part, with
  at least one digit before the exponent.
\<close>

definition parseFloat_str :: "string \<Rightarrow> jsnum" where
  "parseFloat_str s =
     (let (neg, u) = read_sign (dropWhile is_ws s)
      in if take 8 u = ''Infinity'' then (if neg then NegInf else PosInf)
         else let ip = takeWhile is_digit u;
                  r1 = dropWhile is_digit u;
                  (fp, r2) = (case r1 of
                                [] \<Rightarrow> ([], r1)
                              | c # r \<Rightarrow> if c = CHR ''.''
                                         then (takeWhile is_digit r, dropWhile is_digit r)
                                         else ([], r1))
              in if ip = [] \<and> fp = [] then NaN
                 else let q = of_nat (dec (ip @ fp)) * 10 powi (read_exponent r2 - int (length fp))
                      in to_double (if neg then - q else q))"

definition parseFloat :: "(jsnum \<Rightarrow> string) \<Rightarrow> jsval \<Rightarrow> jsnum" where
  "parseFloat ts v = parseFloat_str (ToString ts v)"

definition parseInt :: "(jsnum \<Rightarrow> string) \<Rightarrow> jsval \<Rightarrow> int option" where
  "parseInt ts v = parseInt10 (ToString ts v)"


text \<open>
  \<open>Number::toString\<close> of ECMAScript in radix 10, the conversion that the runtime applies
  when \<open>parseInt\<close> or \<open>parseFloat\<close> is given a Number: the value of the parameter \<open>ts\<close> when
  the source runs. For a finite \<open>x > 0\<close> it takes the integers \<open>n\<close>, \<open>k\<close> and \<open>s\<close> with
  \<open>k \<ge> 1\<close>, \<open>10^(k-1) \<le> s < 10^k\<close>, \<open>s * 10^(n-k)\<close> of Number value \<open>x\<close> and \<open>k\<close> as small as
  possible (of several such \<open>s\<close> the one nearest to \<open>x\<close>, the even one on a tie). It writes
  the digits of \<open>s\<close> in positional notation when \<open>-6 < n \<le> 21\<close>, and otherwise in exponent
  notation: the first digit, a point and the other digits if there are any, \<open>e\<close>, the sign
  of \<open>n - 1\<close> and the digits of its absolute value.
\<close>

fun ilog10 :: "nat \<Rightarrow> nat" where
  "ilog10 n = (if n < 10 then 0 else Suc (ilog10 (n div 10)))"

declare ilog10.simps [simp del]

text \<open>For \<open>0 < q\<close>, the integer \<open>k\<close> with \<open>10^k \<le> q < 10^(k+1)\<close>.\<close>

definition decade :: "rat \<Rightarrow> int" where
  "decade q =
     (if 1 \<le> q then int (ilog10 (nat \<lfloor>q\<rfloor>))
      else - int (Suc (ilog10 (nat \<lceil>1 / q\<rceil> - 1))))"

text \<open>The decimal digits of a natural number.\<close>

fun digits :: "nat \<Rightarrow> string" where
  "digits n = (if n < 10 then [''0123456789'' ! n] else digits (n div 10) @ [''0123456789'' ! (n mod 10)])"

declare digits.simps [simp del]

text \<open>
  The integer \<open>s\<close> next to \<open>q / 10^(n-k)\<close>, below or above, for which \<open>s * 10^(n-k)\<close> has the
  Number value \<open>q\<close>; of the two, the one nearer to \<open>q\<close>, the even one on a tie. Any other
  integer with that property is farther from \<open>q\<close> than one of these two.
\<close>

definition candidate :: "rat \<Rightarrow> int \<Rightarrow> nat \<Rightarrow> int option" where
  "candidate q n k =
     (let p = 10 powi (n - int k);
          lo = \<lfloor>q / p\<rfloor>;
          hi = lo + 1;
          ok_lo = (to_double (of_int lo * p) = Fin q);
          ok_hi = (to_double (of_int hi * p) = Fin q)
      in if ok_lo \<and> ok_hi
         then Some (if q - of_int lo * p < of_int hi * p - q then lo
                    else if of_int hi * p - q < q - of_int lo * p then hi
                    else if even lo then lo else hi)
         else if ok_lo then Some lo
         else if ok_hi then Some hi
         else None)"

text \<open>The least \<open>k\<close> of a list for which there is such an \<open>s\<close>, with that \<open>s\<close>.\<close>

fun first_candidate :: "rat \<Rightarrow> int \<Rightarrow> nat list \<Rightarrow> (int \<times> nat) option" where
  "first_candidate q n [] = None"
| "first_candidate q n (k # ks) =
     (case candidate q n k of
        Some s \<Rightarrow> Some (s, k)
      | None \<Rightarrow> first_candidate q n ks)"

text \<open>
  The string of a finite \<open>q > 0\<close>. A binary64 value is determined by 17 significant
  decimal digits, so \<open>k\<close> is sought from 1 to 17, with \<open>n\<close> the number of digits of the
  integer part of \<open>q\<close>; if the \<open>s\<close> found is \<open>10^k\<close>, its trailing zeros are dropped and \<open>n\<close>
  is one more.
\<close>

definition show_positive :: "rat \<Rightarrow> string" where
  "show_positive q =
     (let n0 = decade q + 1
      in case first_candidate q n0 [1..<18] of
           None \<Rightarrow> []
         | Some (s, k0) \<Rightarrow>
             let all = digits (nat s);
                 ds = rev (dropWhile (\<lambda>c. c = CHR ''0'') (rev all));
                 n = n0 + int (length all) - int k0;
                 k = int (length ds)
             in if - 6 < n \<and> n \<le> 21
                then (if k \<le> n then ds @ replicate (nat (n - k)) (CHR ''0'')
                      else if 0 < n then take (nat n) ds @ ''.'' @ drop (nat n) ds
                      else ''0.'' @ replicate (nat (- n)) (CHR ''0'') @ ds)
                else (if k = 1 then ds else hd ds # CHR ''.'' # tl ds) @ ''e'' @
                     (if n - 1 < 0 then ''-'' else ''+'') @ digits (nat \<bar>n - 1\<bar>))"

fun numberToString :: "jsnum \<Rightarrow> string" where
  "numberToString NaN = ''NaN''"
| "numberToString PosInf = ''Infinity''"
| "numberToString NegInf = ''-Infinity''"
| "numberToString (Fin q) =
     (if q = 0 then ''0''
      else if q < 0 then ''-'' @ show_positive (- q)
      else show_positive q)"


section \<open>Temperature and age\<close>

text \<open>The numeric literals \<open>99.5\<close>, \<open>99.6\<close>, \<open>100.9\<close> and \<open>101.0\<close> of the source.\<close>

definition num_99_5 :: jsnum where
  "num_99_5 = to_double (995 / 10)"

definition num_99_6 :: jsnum where
  "num_99_6 = to_double (996 / 10)"

definition num_100_9 :: jsnum where
  "num_100_9 = to_double (1009 / 10)"

definition num_101_0 :: jsnum where
  "num_101_0 = to_double 101"

text \<open>The characters of a string value; only read where \<open>typeof v === 'string'\<close> holds.\<close>

fun chars_of :: "jsval \<Rightarrow> string" where
  "chars_of (JStr s) = s"
| "chars_of v = []"

definition getTempRisk :: "(jsnum \<Rightarrow> string) \<Rightarrow> jsval \<Rightarrow> risk" where
  "getTempRisk ts temp =
     (if truthy temp \<and> is_string temp \<and>
         toUpperCase (chars_of temp)
           \<in> set [''INVALID'', ''ERROR'', ''TEMP_ERROR'', ''N/A'', ''NULL'', ''UNDEFINED'']
      then \<lparr>score = 0, hasIssue = True\<rparr>
      else let tempNum = parseFloat ts temp
           in if temp = JNull \<or> temp = JUndefined \<or> temp = JStr [] \<or> isNaN tempNum
              then \<lparr>score = 0, hasIssue = True\<rparr>
              else if js_le tempNum num_99_5 then \<lparr>score = 0, hasIssue = False\<rparr>
              else if js_ge tempNum num_99_6 \<and> js_le tempNum num_100_9
              then \<lparr>score = 1, hasIssue = False\<rparr>
              else if js_ge tempNum num_101_0 then \<lparr>score = 2, hasIssue = False\<rparr>
              else \<lparr>score = 0, hasIssue = False\<rparr>)"

text \<open>The pattern \<open>/^\d+$/\<close>.\<close>

definition all_digits :: "string \<Rightarrow> bool" where
  "all_digits t = (t \<noteq> [] \<and> list_all is_digit t)"

definition getAgeRisk :: "(jsnum \<Rightarrow> string) \<Rightarrow> jsval \<Rightarrow> risk" where
  "getAgeRisk ts a =
     (if truthy a \<and> is_string a \<and>
         list_ex (\<lambda>w. contains w (toUpperCase (chars_of a)))
           [''UNKNOWN'', ''INVALID'', ''ERROR'', ''NA'', ''NULL'', ''UNDEFINED'']
      then \<lparr>score = 0, hasIssue = True\<rparr>
      else if truthy a \<and> is_string a \<and> \<not> all_digits (trim (chars_of a))
      then \<lparr>score = 0, hasIssue = True\<rparr>
      else if a = JNull \<or> a = JUndefined \<or> a = JStr []
      then \<lparr>score = 0, hasIssue = True\<rparr>
      else (case parseInt ts a of
              None \<Rightarrow> \<lparr>score = 0, hasIssue = True\<rparr>
            | Some ageNum \<Rightarrow>
                if ageNum \<le> 0 then \<lparr>score = 0, hasIssue = True\<rparr>
                else if ageNum > 65 then \<lparr>score = 2, hasIssue = False\<rparr>
                else if ageNum \<ge> 40 \<and> ageNum \<le> 65 then \<lparr>score = 1, hasIssue = False\<rparr>
                else if ageNum < 40 then \<lparr>score = 0, hasIssue = False\<rparr>
                else \<lparr>score = 0, hasIssue = False\<rparr>))"


section \<open>Processing the patient list\<close>

text \<open>
  An element of the fetched array is an object with the four fields read by the source
  (an absent field is \<open>undefined\<close>), or \<open>None\<close> for an element that is \<open>null\<close>, \<open>undefined\<close> or
  any other value without fields.
\<close>

record patient =
  patient_id :: jsval
  blood_pressure :: jsval
  temperature :: jsval
  age :: jsval

record alerts =
  high_risk_patients :: "jsval list"
  fever_patients :: "jsval list"
  data_quality_issues :: "jsval list"

text \<open>The fever test of lines 190 and 191, on the raw temperature field.\<close>

definition isFever :: "(jsnum \<Rightarrow> string) \<Rightarrow> jsval \<Rightarrow> bool" where
  "isFever ts t = (let temp = parseFloat ts t in \<not> isNaN temp \<and> js_ge temp num_99_6)"

text \<open>The callback of \<open>patients.forEach\<close>: one element, and the three lists so far.\<close>

definition assess :: "(jsnum \<Rightarrow> string) \<Rightarrow> alerts \<Rightarrow> patient option \<Rightarrow> alerts" where
  "assess ts out entry =
     (case entry of
        None \<Rightarrow> out
      | Some p \<Rightarrow>
          if \<not> truthy (patient_id p) then out
          else let bpRisk = getBPRisk (blood_pressure p);
                   tempRisk = getTempRisk ts (temperature p);
                   ageRisk = getAgeRisk ts (age p);
                   totalScore = score bpRisk + score tempRisk + score ageRisk;
                   out1 = (if totalScore \<ge> 4
                           then out\<lparr>high_risk_patients := high_risk_patients out @ [patient_id p]\<rparr>
                           else out);
                   out2 = (if isFever ts (temperature p)
                           then out1\<lparr>fever_patients := fever_patients out1 @ [patient_id p]\<rparr>
                           else out1)
               in if hasIssue bpRisk \<or> hasIssue tempRisk \<or> hasIssue ageRisk
                  then out2\<lparr>data_quality_issues := data_quality_issues out2 @ [patient_id p]\<rparr>
                  else out2)"

definition processPatients :: "(jsnum \<Rightarrow> string) \<Rightarrow> patient option list \<Rightarrow> alerts" where
  "processPatients ts patients =
     foldl (assess ts)
       \<lparr>high_risk_patients = [], fever_patients = [], data_quality_issues = []\<rparr> patients"


section \<open>The API client: one request with retries\<close>

text \<open>
  The call of \<open>axios\<close> either resolves, and \<open>response.data\<close> is the payload, or rejects with
  an error; \<open>error.response?.status\<close> is the HTTP status, or \<open>undefined\<close> (here \<open>None\<close>) when
  there was no response. The network is the sequence of outcomes of the calls made, in
  the order in which they are made.
\<close>

datatype 'a outcome = Resolved 'a | Rejected "nat option"

text \<open>
  What \<open>makeRequest\<close> throws: the error of the last call, or the \<open>Error\<close> made after the loop.
\<close>

datatype failure = RequestError "nat option" | AttemptsExhausted

record retry_state =
  attempt :: nat
  rateLimitAttempts :: nat

definition maxRateLimitRetries :: nat where
  "maxRateLimitRetries = 8"

text \<open>
  One pass through the body of the loop of \<open>makeRequest\<close> returns the payload, or throws
  an error with the counters as they then are, or goes on to the next pass with new
  counters after a wait in milliseconds.
\<close>

datatype 'a step = Return 'a | Throw failure retry_state | Continue retry_state nat

definition handle_outcome :: "nat \<Rightarrow> retry_state \<Rightarrow> 'a outcome \<Rightarrow> 'a step" where
  "handle_outcome maxRetries s out =
     (case out of
        Resolved d \<Rightarrow> Return d
      | Rejected status \<Rightarrow>
          if status = Some 429
          then (let s1 = s\<lparr>rateLimitAttempts := rateLimitAttempts s + 1\<rparr>
                in if rateLimitAttempts s1 \<le> maxRateLimitRetries
                   then Continue s1 (3000 * rateLimitAttempts s1)
                   else Throw (RequestError status) s1)
          else let s1 = s\<lparr>rateLimitAttempts := 0\<rparr>
               in if status = Some 500 \<or> status = Some 502 \<or> status = Some 503
                  then (if attempt s1 < maxRetries
                        then Continue (s1\<lparr>attempt := attempt s1 + 1\<rparr>) (1000 * attempt s1)
                        else Throw (RequestError status) s1)
                  else if attempt s1 \<ge> maxRetries then Throw (RequestError status) s1
                  else if status \<noteq> None \<and> status \<noteq> Some 0 \<and> status \<noteq> Some 429 \<and>
                          status \<noteq> Some 500 \<and> status \<noteq> Some 502 \<and> status \<noteq> Some 503
                  then Throw (RequestError status) s1
                  else Continue (s1\<lparr>attempt := attempt s1 + 1\<rparr>) 0)"

text \<open>The condition of the \<open>while\<close> loop.\<close>

definition loop_condition :: "nat \<Rightarrow> retry_state \<Rightarrow> bool" where
  "loop_condition maxRetries s =
     (attempt s \<le> maxRetries \<or>
      (rateLimitAttempts s > 0 \<and> rateLimitAttempts s < maxRateLimitRetries))"

text \<open>
  The loop, reading the outcomes of the network from position \<open>i\<close> on. The result is what
  the request returns or throws, the position after the last outcome read, and the
  counters at the end.
\<close>

function makeRequest_loop ::
  "nat \<Rightarrow> (nat \<Rightarrow> 'a outcome) \<Rightarrow> nat \<Rightarrow> retry_state \<Rightarrow> (failure + 'a) \<times> nat \<times> retry_state" where
  "makeRequest_loop maxRetries net i s =
     (if loop_condition maxRetries s
      then (case handle_outcome maxRetries s (net i) of
              Return d \<Rightarrow> (Inr d, i + 1, s)
            | Throw e s' \<Rightarrow> (Inl e, i + 1, s')
            | Continue s' ms \<Rightarrow> makeRequest_loop maxRetries net (i + 1) s')
      else (Inl AttemptsExhausted, i, s))"
  by pat_completeness auto
termination
proof (relation "measure (\<lambda>(maxRetries, net, i, s).
         10 * (maxRetries + 1 - attempt s) + (9 - rateLimitAttempts s))")
  show "wf (measure (\<lambda>(maxRetries, net :: nat \<Rightarrow> 'a outcome, i :: nat, s).
         10 * (maxRetries + 1 - attempt s) + (9 - rateLimitAttempts s)))"
    by simp
next
  fix maxRetries :: nat and net :: "nat \<Rightarrow> 'a outcome" and i :: nat
    and s s' :: retry_state and ms :: nat
  assume "loop_condition maxRetries s"
    and "handle_outcome maxRetries s (net i) = Continue s' ms"
  then show "((maxRetries, net, i + 1, s'), (maxRetries, net, i, s))
      \<in> measure (\<lambda>(maxRetries, net, i, s).
           10 * (maxRetries + 1 - attempt s) + (9 - rateLimitAttempts s))"
    by (auto simp: handle_outcome_def maxRateLimitRetries_def Let_def
          split: outcome.splits if_splits)
qed

declare makeRequest_loop.simps [simp del]

definition makeRequest ::
  "nat \<Rightarrow> (nat \<Rightarrow> 'a outcome) \<Rightarrow> nat \<Rightarrow> (failure + 'a) \<times> nat \<times> retry_state" where
  "makeRequest maxRetries net i =
     makeRequest_loop maxRetries net i \<lparr>attempt = 1, rateLimitAttempts = 0\<rparr>"


section \<open>The API client: fetching all pages\<close>

text \<open>
  The payload of a page, as far as \<open>fetchAllPatients\<close> looks at it: a falsy value; an
  array; or any other value, with its fields \<open>data\<close> and \<open>patients\<close> where they hold an
  array (\<open>None\<close> for a field that is absent or holds something else).
\<close>

datatype 'p body = Falsy | Bare "'p list" | Envelope "'p list option" "'p list option"

text \<open>The variable \<open>patients\<close> after the three tests of lines 115 to 122; \<open>None\<close> is \<open>null\<close>.\<close>

fun extract_patients :: "'p body \<Rightarrow> 'p list option" where
  "extract_patients (Envelope (Some xs) p) = Some xs"
| "extract_patients (Envelope None (Some ys)) = Some ys"
| "extract_patients (Envelope None None) = None"
| "extract_patients (Bare xs) = Some xs"
| "extract_patients Falsy = None"

text \<open>
  The variables of the loop of \<open>fetchAllPatients\<close>, the position reached in the outcomes
  of the network, and the page numbers passed to \<open>makeRequest\<close> so far.
\<close>

record 'p fetch_state =
  allPatients :: "'p list"
  page :: nat
  hasMore :: bool
  cursor :: nat
  requested :: "nat list"

text \<open>One pass through the body of the loop: the \<open>try\<close> block and its \<open>catch\<close>.\<close>

definition fetch_page :: "(nat \<Rightarrow> 'p body outcome) \<Rightarrow> 'p fetch_state \<Rightarrow> 'p fetch_state" where
  "fetch_page net st =
     (let st0 = st\<lparr>requested := requested st @ [page st]\<rparr>
      in case makeRequest 3 net (cursor st) of
           (Inr data, j, s) \<Rightarrow>
             if data = Falsy then st0\<lparr>page := page st + 1, cursor := j\<rparr>
             else (case extract_patients data of
                     Some patients \<Rightarrow>
                       if length patients > 0
                       then st0\<lparr>allPatients := allPatients st @ patients,
                                hasMore := (length patients \<ge> 5),
                                page := page st + 1, cursor := j\<rparr>
                       else st0\<lparr>hasMore := False, cursor := j\<rparr>
                   | None \<Rightarrow> st0\<lparr>hasMore := False, cursor := j\<rparr>)
         | (Inl e, j, s) \<Rightarrow>
             st0\<lparr>page := page st + 1, cursor := j,
                 hasMore := (if page st + 1 > 15 then False else hasMore st)\<rparr>)"

text \<open>
  The loop runs as long as \<open>hasMore\<close> holds, which may be forever: with fuel for \<open>n\<close>
  passes, \<open>None\<close> says that the loop is still running after them.
\<close>

fun fetch_loop ::
  "nat \<Rightarrow> (nat \<Rightarrow> 'p body outcome) \<Rightarrow> 'p fetch_state \<Rightarrow> 'p fetch_state option" where
  "fetch_loop fuel net st =
     (if \<not> hasMore st then Some st
      else (case fuel of
              0 \<Rightarrow> None
            | Suc n \<Rightarrow> fetch_loop n net (fetch_page net st)))"

declare fetch_loop.simps [simp del]

definition fetch_start :: "'p fetch_state" where
  "fetch_start = \<lparr>allPatients = [], page = 1, hasMore = True, cursor = 0, requested = []\<rparr>"

definition fetchAllPatients :: "nat \<Rightarrow> (nat \<Rightarrow> 'p body outcome) \<Rightarrow> 'p list option" where
  "fetchAllPatients fuel net = map_option allPatients (fetch_loop fuel net fetch_start)"


section \<open>Notions used to state the properties\<close>

text \<open>The test of line 176: the callback returns at once on such an element.\<close>

definition skipped :: "patient option \<Rightarrow> bool" where
  "skipped entry = (case entry of None \<Rightarrow> True | Some p \<Rightarrow> \<not> truthy (patient_id p))"

text \<open>The records of the input that are not skipped, in input order.\<close>

definition processed :: "patient option list \<Rightarrow> patient list" where
  "processed es =
     concat (map (\<lambda>e. case e of
                        None \<Rightarrow> []
                      | Some p \<Rightarrow> if truthy (patient_id p) then [p] else []) es)"

text \<open>The sum that the callback compares with 4, for a record.\<close>

definition totalScore :: "(jsnum \<Rightarrow> string) \<Rightarrow> patient \<Rightarrow> int" where
  "totalScore ts p =
     score (getBPRisk (blood_pressure p)) + score (getTempRisk ts (temperature p)) +
     score (getAgeRisk ts (age p))"

text \<open>The two example records of the specification (section 8).\<close>

definition example_p1 :: patient where
  "example_p1 = \<lparr>patient_id = JStr ''p1'', blood_pressure = JStr ''145/95'',
                  temperature = JStr ''99.9'', age = JStr ''70''\<rparr>"

definition example_p2 :: patient where
  "example_p2 = \<lparr>patient_id = JStr ''p2'', blood_pressure = JStr ''INVALID'',
                  temperature = JStr ''TEMP_ERROR'', age = JStr ''unknown''\<rparr>"

text \<open>
  The age bands of the specification (section 4.2), written from its words: over 65
  gives 2, 40 to 65 inclusive gives 1, under 40 gives 0.
\<close>

definition age_band :: "int \<Rightarrow> int" where
  "age_band n = (if n > 65 then 2 else if n \<ge> 40 then 1 else 0)"

text \<open>
  A decimal literal as \<open>parseFloat\<close> accepts it at the head of a string (the
  \<open>StrDecimalLiteral\<close> of ECMAScript, apart from \<open>Infinity\<close>): an optional sign, digits with
  an optional point and fraction digits, at least one digit in all, and an optional
  exponent part made of \<open>e\<close> or \<open>E\<close>, an optional sign and at least one digit. The record
  keeps the parts apart; \<open>literal_text\<close> is the text written and \<open>literal_value\<close> the number
  that the text denotes, both written from the grammar and not from the source.
\<close>

record decimal_literal =
  sign_part :: string
  int_part :: string
  point :: bool
  frac_part :: string
  exp_part :: "(char \<times> string \<times> string) option"

definition exponent_text :: "decimal_literal \<Rightarrow> string" where
  "exponent_text l = (case exp_part l of None \<Rightarrow> [] | Some (c, sg, ds) \<Rightarrow> c # sg @ ds)"

definition literal_text :: "decimal_literal \<Rightarrow> string" where
  "literal_text l =
     sign_part l @ int_part l @ (if point l then CHR ''.'' # frac_part l else []) @ exponent_text l"

definition well_formed :: "decimal_literal \<Rightarrow> bool" where
  "well_formed l =
     (sign_part l \<in> set ['''', ''+'', ''-''] \<and>
      list_all is_digit (int_part l) \<and> list_all is_digit (frac_part l) \<and>
      (point l \<or> frac_part l = []) \<and> int_part l @ frac_part l \<noteq> [] \<and>
      (case exp_part l of
         None \<Rightarrow> True
       | Some (c, sg, ds) \<Rightarrow>
           (c = CHR ''e'' \<or> c = CHR ''E'') \<and> sg \<in> set ['''', ''+'', ''-''] \<and> all_digits ds))"

definition exponent_value :: "decimal_literal \<Rightarrow> int" where
  "exponent_value l =
     (case exp_part l of
        None \<Rightarrow> 0
      | Some (c, sg, ds) \<Rightarrow> if sg = ''-'' then - int (dec ds) else int (dec ds))"

definition literal_value :: "decimal_literal \<Rightarrow> rat" where
  "literal_value l =
     (if sign_part l = ''-'' then - 1 else 1) *
     (of_nat (dec (int_part l)) + of_nat (dec (frac_part l)) / 10 ^ length (frac_part l)) *
     10 powi exponent_value l"

text \<open>
  Text that begins with an exponent part: \<open>e\<close> or \<open>E\<close>, then a digit, or a sign and a digit.
\<close>

definition starts_exponent :: "string \<Rightarrow> bool" where
  "starts_exponent t =
     (case t of
        [] \<Rightarrow> False
      | c # r \<Rightarrow>
          (c = CHR ''e'' \<or> c = CHR ''E'') \<and>
          (case r of
             [] \<Rightarrow> False
           | d # r' \<Rightarrow>
               is_digit d \<or>
               ((d = CHR ''+'' \<or> d = CHR ''-'') \<and> (case r' of [] \<Rightarrow> False | d' # r'' \<Rightarrow> is_digit d'))))"

text \<open>
  The text \<open>t\<close> after a literal does not continue it: \<open>t\<close> is empty, or it begins with no
  digit, with no exponent part if the literal has none, and with no point if the literal
  has neither point nor exponent part. Any other \<open>t\<close> begins with characters that belong
  to a longer literal.
\<close>

definition may_follow :: "decimal_literal \<Rightarrow> string \<Rightarrow> bool" where
  "may_follow l t =
     (t = [] \<or>
      (\<not> is_digit (hd t) \<and>
       (exp_part l = None \<longrightarrow> \<not> starts_exponent t) \<and>
       (exp_part l = None \<and> \<not> point l \<longrightarrow> hd t \<noteq> CHR ''.'')))"

text \<open>
  A numeric prefix of a temperature string: a decimal literal, or \<open>Infinity\<close> with an
  optional sign. Its text, whether it is well formed, the Number it denotes, and whether
  the text after it does not continue it (anything may follow \<open>Infinity\<close>).
\<close>

datatype numeric_prefix = Decimal decimal_literal | Infinite string

fun prefix_text :: "numeric_prefix \<Rightarrow> string" where
  "prefix_text (Decimal l) = literal_text l"
| "prefix_text (Infinite sg) = sg @ ''Infinity''"

fun well_formed_prefix :: "numeric_prefix \<Rightarrow> bool" where
  "well_formed_prefix (Decimal l) = well_formed l"
| "well_formed_prefix (Infinite sg) = (sg \<in> set ['''', ''+'', ''-''])"

fun prefix_value :: "numeric_prefix \<Rightarrow> jsnum" where
  "prefix_value (Decimal l) = to_double (literal_value l)"
| "prefix_value (Infinite sg) = (if sg = ''-'' then NegInf else PosInf)"

fun ends_before :: "numeric_prefix \<Rightarrow> string \<Rightarrow> bool" where
  "ends_before (Decimal l) t = may_follow l t"
| "ends_before (Infinite sg) t = True"

text \<open>An outcome that is a rejection with HTTP status 429.\<close>

definition rate_limited :: "'a outcome \<Rightarrow> bool" where
  "rate_limited out = (out = Rejected (Some 429))"

text \<open>How many of the outcomes at the positions from \<open>i\<close> up to, not including, \<open>j\<close> satisfy \<open>P\<close>.\<close>

definition count_outcomes :: "('a outcome \<Rightarrow> bool) \<Rightarrow> (nat \<Rightarrow> 'a outcome) \<Rightarrow> nat \<Rightarrow> nat \<Rightarrow> nat" where
  "count_outcomes P net i j = length (filter (\<lambda>k. P (net k)) [i..<j])"

text \<open>
  The records that one outcome of the network adds to the result of \<open>fetchAllPatients\<close>:
  those of the array found in a resolved, truthy payload, and none otherwise.
\<close>

definition records_of :: "'p body outcome \<Rightarrow> 'p list" where
  "records_of out =
     (case out of
        Rejected status \<Rightarrow> []
      | Resolved d \<Rightarrow> (case extract_patients d of None \<Rightarrow> [] | Some ps \<Rightarrow> ps))"

text \<open>
  Networks used as examples. Eight 429 responses, a 500, one more 429, then success with
  payload 0:
\<close>

definition burst_then_success :: "nat \<Rightarrow> nat outcome" where
  "burst_then_success i =
     (if i < 8 then Rejected (Some 429)
      else if i = 8 then Rejected (Some 500)
      else if i = 9 then Rejected (Some 429)
      else Resolved 0)"

text \<open>A 404 response, then success with payload 0:\<close>

definition not_found_then_success :: "nat \<Rightarrow> nat outcome" where
  "not_found_then_success i = (if i = 0 then Rejected (Some 404) else Resolved 0)"

text \<open>Every request is answered with a full page of five records (here numbers):\<close>

definition full_pages :: "nat \<Rightarrow> nat body outcome" where
  "full_pages i = Resolved (Bare [1, 2, 3, 4, 5])"

text \<open>Every request is answered with status 200 and an empty body:\<close>

definition empty_bodies :: "nat \<Rightarrow> nat body outcome" where
  "empty_bodies i = Resolved Falsy"

text \<open>Two full pages, the second after two 500 responses, then a page of one record:\<close>

definition three_pages :: "nat \<Rightarrow> nat body outcome" where
  "three_pages i =
     (if i = 0 then Resolved (Bare [1, 2, 3, 4, 5])
      else if i = 1 \<or> i = 2 then Rejected (Some 500)
      else if i = 3 then Resolved (Envelope (Some [6, 7, 8, 9, 10]) None)
      else Resolved (Envelope None (Some [11])))"

text \<open>One 429 response, then success with payload 0:\<close>

definition limited_then_success :: "nat \<Rightarrow> nat outcome" where
  "limited_then_success i = (if i = 0 then Rejected (Some 429) else Resolved 0)"

text \<open>
  The list accumulated so far is the concatenation, in the order of the calls, of the
  records of all outcomes read so far.
\<close>

definition fetched :: "(nat \<Rightarrow> 'p body outcome) \<Rightarrow> 'p fetch_state \<Rightarrow> bool" where
  "fetched net st = (allPatients st = concat (map (\<lambda>k. records_of (net k)) [0..<cursor st]))"

text \<open>
  A payload after which the loop of \<open>fetchAllPatients\<close> stops: truthy, with no array found
  in it or an array of fewer than five records.
\<close>

definition last_page :: "'p body \<Rightarrow> bool" where
  "last_page d =
     (d \<noteq> Falsy \<and> (case extract_patients d of None \<Rightarrow> True | Some ps \<Rightarrow> length ps < 5))"


section \<open>Blood pressure: the score follows the priority table\<close>

text \<open>
  C1. For every blood-pressure input the effective \<open>getBPRisk\<close> (the later declaration)
  returns score 0 with the issue flag set when \<open>parseBP\<close> fails, and otherwise the score
  of the first matching rule of the priority table with the flag clear: 3 for systolic
  at least 140 or diastolic at least 90; else 2 for systolic in 130 to 139 or diastolic in
  80 to 89; else 1 for systolic in 120 to 129 and diastolic below 80; else 0, and then
  systolic is below 120 and diastolic below 80.
\<close>

theorem getBPRisk_priority_table:
  "(parseBP bp = None \<longrightarrow> getBPRisk bp = \<lparr>score = 0, hasIssue = True\<rparr>) \<and>
   (\<forall>p. parseBP bp = Some p \<longrightarrow>
      getBPRisk bp = \<lparr>score = bp_priority_score (systolic p) (diastolic p), hasIssue = False\<rparr> \<and>
      (bp_priority_score (systolic p) (diastolic p) = 0 \<longrightarrow> systolic p < 120 \<and> diastolic p < 80))"
  by (auto simp: getBPRisk_def bp_priority_score_def)

lemmas bp_eval =
  parseBP_def match_bp_def parseInt10_def read_sign_def dec_def digit_val_def is_digit_def
  is_ws_def toUpperCase_def upper_char_def

theorem getBPRisk_priority_table_witness:
  "parseBP (JStr ''INVALID'') = None \<and>
   getBPRisk (JStr ''INVALID'') = \<lparr>score = 0, hasIssue = True\<rparr> \<and>
   parseBP (JStr ''135/95'') = Some \<lparr>systolic = 135, diastolic = 95\<rparr> \<and>
   getBPRisk (JStr ''135/95'') = \<lparr>score = 3, hasIssue = False\<rparr> \<and>
   parseBP (JStr ''110/70'') = Some \<lparr>systolic = 110, diastolic = 70\<rparr> \<and>
   getBPRisk (JStr ''110/70'') = \<lparr>score = 0, hasIssue = False\<rparr>"
proof -
  have a: "parseBP (JStr ''INVALID'') = None"
    by (simp add: bp_eval)
  have b: "parseBP (JStr ''135/95'') = Some \<lparr>systolic = 135, diastolic = 95\<rparr>"
    by (simp add: bp_eval)
  have c: "parseBP (JStr ''110/70'') = Some \<lparr>systolic = 110, diastolic = 70\<rparr>"
    by (simp add: bp_eval)
  show ?thesis
    using a b c
      getBPRisk_priority_table [of "JStr ''INVALID''"]
      getBPRisk_priority_table [of "JStr ''135/95''"]
      getBPRisk_priority_table [of "JStr ''110/70''"]
    by (simp add: bp_priority_score_def)
qed


text \<open>
  The two declarations of \<open>getBPRisk\<close> disagree, for instance on a normal reading; the
  table of the shadowed one runs from 1 to 4.
\<close>

lemma shadowed_declaration_differs:
  "getBPRisk_shadowed (JStr ''110/70'') = \<lparr>score = 1, hasIssue = False\<rparr>"
  "getBPRisk (JStr ''110/70'') = \<lparr>score = 0, hasIssue = False\<rparr>"
  by (simp_all add: getBPRisk_shadowed_def getBPRisk_def bp_eval)


section \<open>Evaluating numbers and strings\<close>

lemma floor_rat_numeral: "\<lfloor>numeral a / numeral b :: rat\<rfloor> = numeral a div numeral b"
  by (metis floor_divide_of_int_eq of_int_numeral)

lemma ilog2_bounds: "0 < n \<Longrightarrow> 2 ^ ilog2 n \<le> n \<and> n < 2 ^ Suc (ilog2 n)"
proof (induction n rule: ilog2.induct)
  case (1 n)
  show ?case
  proof (cases "n < 2")
    case True
    with "1.prems" show ?thesis by (simp add: ilog2.simps)
  next
    case False
    then have "0 < n div 2" by simp
    with 1 False have ih: "2 ^ ilog2 (n div 2) \<le> n div 2" "n div 2 < 2 ^ Suc (ilog2 (n div 2))"
      by simp_all
    have eq: "ilog2 n = Suc (ilog2 (n div 2))"
      using False by (subst ilog2.simps) simp
    from ih show ?thesis unfolding eq by auto
  qed
qed

lemma ilog2_unique:
  assumes "2 ^ k \<le> n" and "n < 2 ^ Suc k"
  shows "ilog2 n = k"
proof -
  from assms have pos: "0 < n"
    by (metis less_le_trans zero_less_numeral zero_less_power)
  from ilog2_bounds [OF pos] have b: "2 ^ ilog2 n \<le> n" "n < 2 ^ Suc (ilog2 n)"
    by simp_all
  have "(2::nat) ^ k < 2 ^ Suc (ilog2 n)"
    using assms(1) b(2) by linarith
  then have "k < Suc (ilog2 n)"
    by (simp only: power_strict_increasing_iff one_less_numeral_iff semiring_norm)
  moreover have "(2::nat) ^ ilog2 n < 2 ^ Suc k"
    using assms(2) b(1) by linarith
  then have "ilog2 n < Suc k"
    by (simp only: power_strict_increasing_iff one_less_numeral_iff semiring_norm)
  ultimately show ?thesis by simp
qed

text \<open>Body temperatures lie between 64 and 128, where a binary64 value has 46 fraction bits.\<close>

lemma binade_6:
  assumes "64 \<le> q" and "q < 128"
  shows "binade q = 6"
proof -
  have f: "64 \<le> \<lfloor>q\<rfloor>" "\<lfloor>q\<rfloor> < 128"
    using assms by (simp_all add: le_floor_iff floor_less_iff)
  then have "64 \<le> nat \<lfloor>q\<rfloor>" "nat \<lfloor>q\<rfloor> < 128"
    by linarith+
  then have "2 ^ 6 \<le> nat \<lfloor>q\<rfloor>" "nat \<lfloor>q\<rfloor> < 2 ^ Suc 6"
    by simp_all
  then have "ilog2 (nat \<lfloor>q\<rfloor>) = 6"
    by (rule ilog2_unique)
  with assms show ?thesis by (simp add: binade_def)
qed

lemma binade_nat:
  assumes "2 ^ k \<le> q" and "q < 2 ^ Suc k"
  shows "binade q = int k"
proof -
  have one: "1 \<le> q"
    using assms(1) by (meson one_le_numeral one_le_power order_trans)
  have "(2::int) ^ k \<le> \<lfloor>q\<rfloor>" "\<lfloor>q\<rfloor> < 2 ^ Suc k"
    using assms by (simp_all add: le_floor_iff floor_less_iff)
  moreover have nn: "0 \<le> \<lfloor>q\<rfloor>"
    using one by simp
  ultimately have "int (2 ^ k) \<le> int (nat \<lfloor>q\<rfloor>)" "int (nat \<lfloor>q\<rfloor>) < int (2 ^ Suc k)"
    by simp_all
  then have "2 ^ k \<le> nat \<lfloor>q\<rfloor>" "nat \<lfloor>q\<rfloor> < 2 ^ Suc k"
    by (simp_all only: of_nat_le_iff of_nat_less_iff)
  then have "ilog2 (nat \<lfloor>q\<rfloor>) = k"
    by (rule ilog2_unique)
  with one show ?thesis by (simp add: binade_def)
qed

lemma binade_5:
  assumes "32 \<le> q" and "q < 64"
  shows "binade q = 5"
  using binade_nat [of 5 q] assms by simp

lemma round_half_even_int: "round_half_even (of_int m) = m"
  by (simp add: round_half_even_def)

text \<open>A rational with at most 53 significant bits, below \<open>2^1024\<close>, is its own Number value.\<close>

lemma to_double_exact:
  assumes "2 ^ k \<le> q" and "q < 2 ^ Suc k" and "k < 1024"
    and "q = of_int m * 2 powi (int k - 52)"
  shows "to_double q = Fin q"
proof -
  have pos: "0 < q"
    using assms(1) by (meson less_le_trans zero_less_numeral zero_less_power)
  have a: "\<bar>q\<bar> = q"
    using pos by simp
  have b: "binade q = int k"
    by (rule binade_nat [OF assms(1,2)])
  have e: "max (int k - 52) (- 1074) = int k - 52"
    by simp
  have p: "(2::rat) powi (int k - 52) \<noteq> 0"
    by simp
  have d: "q / 2 powi (int k - 52) = of_int m"
    using assms(4) p by simp
  have v: "of_int (round_half_even (q / 2 powi (int k - 52))) * 2 powi (int k - 52) = q"
    by (simp only: d round_half_even_int assms(4) [symmetric])
  have big: "\<not> (2::rat) ^ 1024 \<le> q"
  proof -
    have "(2::rat) ^ Suc k \<le> 2 ^ 1024"
      using assms(3) by (intro power_increasing) simp_all
    with assms(2) show ?thesis by simp
  qed
  have "to_double q = (if q = 0 then Fin 0
      else if 2 ^ 1024 \<le> q then (if q < 0 then NegInf else PosInf)
      else Fin (if q < 0 then - q else q))"
    unfolding to_double_def Let_def a b e v ..
  with pos big show ?thesis
    by simp
qed

lemma to_double_nat:
  assumes "2 ^ k \<le> n" and "n < 2 ^ Suc k" and "k \<le> 52"
  shows "to_double (of_nat n) = Fin (of_nat n)"
proof (rule to_double_exact [where k = k and m = "int (n * 2 ^ (52 - k))"])
  have "(of_nat (2 ^ k) :: rat) \<le> of_nat n"
    using assms(1) by (simp only: of_nat_le_iff)
  then show "(2::rat) ^ k \<le> of_nat n"
    by simp
  have "(of_nat n :: rat) < of_nat (2 ^ Suc k)"
    using assms(2) by (simp only: of_nat_less_iff)
  then show "(of_nat n :: rat) < 2 ^ Suc k"
    by simp
  show "k < 1024"
    using assms(3) by simp
  have "int k - 52 = - int (52 - k)"
    using assms(3) by simp
  then have "(2::rat) powi (int k - 52) = 1 / 2 ^ (52 - k)"
    by (simp only: power_int_minus_divide power_int_of_nat)
  then show "(of_nat n :: rat) = of_int (int (n * 2 ^ (52 - k))) * 2 powi (int k - 52)"
    by simp
qed

lemma to_double_values:
  "to_double 70 = Fin 70" "to_double 80 = Fin 80" "to_double 40 = Fin 40" "to_double 50 = Fin 50"
  using to_double_nat [of 6 70] to_double_nat [of 6 80] to_double_nat [of 5 40] to_double_nat [of 5 50]
  by simp_all

lemma to_double_minus_40: "to_double (- 40) = Fin (- 40)"
  by (simp add: to_double_def binade_5 round_half_even_def floor_rat_numeral Let_def)

lemmas num_eval = to_double_def binade_6 round_half_even_def floor_rat_numeral Let_def

lemma num_99_5_value: "num_99_5 = Fin (199 / 2)"
  by (simp add: num_99_5_def num_eval)

lemma num_99_6_value: "num_99_6 = Fin (7008726920095334 / 2 ^ 46)"
  by (simp add: num_99_6_def num_eval)

lemma num_100_9_value: "num_100_9 = Fin (7100206287526298 / 2 ^ 46)"
  by (simp add: num_100_9_def num_eval)

lemma num_101_0_value: "num_101_0 = Fin 101"
  by (simp add: num_101_0_def num_eval)

lemmas str_eval =
  is_ws_def is_digit_def dec_def digit_val_def read_sign_def toUpperCase_def upper_char_def

lemmas temp_eval =
  getTempRisk_def isFever_def parseFloat_def parseFloat_str_def read_exponent_def isNaN_def
  js_ge_def num_99_5_value num_99_6_value num_100_9_value num_101_0_value

lemmas age_eval = getAgeRisk_def parseInt_def parseInt10_def trim_def all_digits_def

lemma example_p1_risks:
  "getBPRisk (JStr ''145/95'') = \<lparr>score = 3, hasIssue = False\<rparr>"
  "getTempRisk ts (JStr ''99.9'') = \<lparr>score = 1, hasIssue = False\<rparr>"
  "getAgeRisk ts (JStr ''70'') = \<lparr>score = 2, hasIssue = False\<rparr>"
  "isFever ts (JStr ''99.9'')"
  by (simp_all add: getBPRisk_def bp_eval temp_eval age_eval str_eval num_eval)

lemma example_p2_risks:
  "getBPRisk (JStr ''INVALID'') = \<lparr>score = 0, hasIssue = True\<rparr>"
  "getTempRisk ts (JStr ''TEMP_ERROR'') = \<lparr>score = 0, hasIssue = True\<rparr>"
  "getAgeRisk ts (JStr ''unknown'') = \<lparr>score = 0, hasIssue = True\<rparr>"
  "\<not> isFever ts (JStr ''TEMP_ERROR'')"
  by (simp_all add: getBPRisk_def bp_eval temp_eval age_eval str_eval num_eval)


section \<open>The three lists of \<open>processPatients\<close>\<close>

lemma high_risk_foldl:
  "high_risk_patients (foldl (assess ts) out es) =
     high_risk_patients out @
     map patient_id (filter (\<lambda>p. 4 \<le> totalScore ts p) (processed es))"
  by (induction es arbitrary: out)
    (auto simp: assess_def processed_def totalScore_def Let_def split: option.splits)

lemma fever_foldl:
  "fever_patients (foldl (assess ts) out es) =
     fever_patients out @
     map patient_id (filter (\<lambda>p. isFever ts (temperature p)) (processed es))"
  by (induction es arbitrary: out)
    (auto simp: assess_def processed_def Let_def split: option.splits)

lemma data_quality_foldl:
  "data_quality_issues (foldl (assess ts) out es) =
     data_quality_issues out @
     map patient_id
       (filter (\<lambda>p. hasIssue (getBPRisk (blood_pressure p)) \<or>
                    hasIssue (getTempRisk ts (temperature p)) \<or>
                    hasIssue (getAgeRisk ts (age p))) (processed es))"
  by (induction es arbitrary: out)
    (auto simp: assess_def processed_def Let_def split: option.splits)

lemma assess_skipped: "skipped e \<Longrightarrow> assess ts out e = out"
  by (auto simp: skipped_def assess_def split: option.splits)

lemma bp_score_range: "0 \<le> score (getBPRisk v) \<and> score (getBPRisk v) \<le> 3"
  by (simp add: getBPRisk_def split: option.splits)

lemma temp_score_range: "0 \<le> score (getTempRisk ts v) \<and> score (getTempRisk ts v) \<le> 2"
  by (simp add: getTempRisk_def Let_def)

lemma age_score_range: "0 \<le> score (getAgeRisk ts v) \<and> score (getAgeRisk ts v) \<le> 2"
  by (simp add: getAgeRisk_def split: option.splits)

lemma processed_examples:
  "processed [Some example_p1, None, Some example_p2, Some (example_p1\<lparr>patient_id := JStr []\<rparr>)]
     = [example_p1, example_p2]"
  by (simp add: processed_def example_p1_def example_p2_def)

text \<open>
  C5. A record with a patient id is in the fever list exactly when \<open>parseFloat\<close> of its raw
  temperature field is a number (not \<open>NaN\<close>) and that number is at least the literal
  \<open>99.6\<close>. The fever list is the ids of these records, in input order; the result of
  \<open>getTempRisk\<close> does not enter.
\<close>

theorem fever_list_by_raw_parse:
  "fever_patients (processPatients ts es) =
     map patient_id
       (filter (\<lambda>p. parseFloat ts (temperature p) \<noteq> NaN \<and>
                    js_ge (parseFloat ts (temperature p)) num_99_6) (processed es))"
  by (simp add: processPatients_def fever_foldl isFever_def isNaN_def Let_def)

theorem fever_list_by_raw_parse_witness:
  "\<forall>ts. fever_patients (processPatients ts
      [Some example_p1, None, Some example_p2, Some (example_p1\<lparr>patient_id := JStr []\<rparr>)])
     = [JStr ''p1'']"
proof
  fix ts
  have "parseFloat ts (JStr ''99.9'') \<noteq> NaN \<and> js_ge (parseFloat ts (JStr ''99.9'')) num_99_6"
    using example_p1_risks(4) [of ts] by (simp add: isFever_def isNaN_def Let_def)
  moreover have "\<not> (parseFloat ts (JStr ''TEMP_ERROR'') \<noteq> NaN \<and>
      js_ge (parseFloat ts (JStr ''TEMP_ERROR'')) num_99_6)"
    using example_p2_risks(4) [of ts] by (simp add: isFever_def isNaN_def Let_def)
  ultimately show "fever_patients (processPatients ts
      [Some example_p1, None, Some example_p2, Some (example_p1\<lparr>patient_id := JStr []\<rparr>)])
     = [JStr ''p1'']"
    using fever_list_by_raw_parse [of ts
        "[Some example_p1, None, Some example_p2, Some (example_p1\<lparr>patient_id := JStr []\<rparr>)]"]
    by (simp add: processed_examples) (simp add: example_p1_def example_p2_def)
qed

text \<open>
  C6. For every processed record the total score is the sum of the blood-pressure,
  temperature and age scores and lies between 0 and 7, and the high-risk list is the ids
  of the processed records whose total score is at least 4, in input order.
\<close>

theorem total_score_and_high_risk:
  "high_risk_patients (processPatients ts es) =
     map patient_id (filter (\<lambda>p. 4 \<le> totalScore ts p) (processed es)) \<and>
   totalScore ts p =
     score (getBPRisk (blood_pressure p)) + score (getTempRisk ts (temperature p)) +
     score (getAgeRisk ts (age p)) \<and>
   0 \<le> totalScore ts p \<and> totalScore ts p \<le> 7"
proof -
  have "0 \<le> totalScore ts p \<and> totalScore ts p \<le> 7"
    using bp_score_range [of "blood_pressure p"] temp_score_range [of ts "temperature p"]
      age_score_range [of ts "age p"]
    by (simp add: totalScore_def)
  then show ?thesis
    by (simp add: processPatients_def high_risk_foldl) (simp add: totalScore_def)
qed

theorem total_score_and_high_risk_witness:
  "\<forall>ts. high_risk_patients (processPatients ts
      [Some example_p1, None, Some example_p2, Some (example_p1\<lparr>patient_id := JStr []\<rparr>)])
     = [JStr ''p1''] \<and> totalScore ts example_p1 = 6 \<and> totalScore ts example_p2 = 0"
proof
  fix ts
  have a: "totalScore ts example_p1 = 6"
    by (simp add: totalScore_def example_p1_def example_p1_risks)
  have b: "totalScore ts example_p2 = 0"
    by (simp add: totalScore_def example_p2_def example_p2_risks)
  show "high_risk_patients (processPatients ts
      [Some example_p1, None, Some example_p2, Some (example_p1\<lparr>patient_id := JStr []\<rparr>)])
     = [JStr ''p1''] \<and> totalScore ts example_p1 = 6 \<and> totalScore ts example_p2 = 0"
    using a b total_score_and_high_risk [of ts
        "[Some example_p1, None, Some example_p2, Some (example_p1\<lparr>patient_id := JStr []\<rparr>)]"
        example_p1]
    by (simp add: processed_examples) (simp add: example_p1_def)
qed

text \<open>
  C9. An element that is \<open>null\<close> or \<open>undefined\<close>, or a record whose \<open>patient_id\<close> is absent
  or falsy, adds nothing to any of the three lists, and the result for the other
  elements is what it is without it: removing the element from the input leaves the
  result of \<open>processPatients\<close> unchanged.
\<close>

theorem skipped_record_contributes_nothing:
  "skipped e \<Longrightarrow> processPatients ts (xs @ e # ys) = processPatients ts (xs @ ys)"
  by (simp add: processPatients_def assess_skipped)

theorem skipped_record_contributes_nothing_witness:
  "\<forall>ts. skipped None \<and> skipped (Some (example_p1\<lparr>patient_id := JStr []\<rparr>)) \<and>
     skipped (Some (example_p1\<lparr>patient_id := JUndefined\<rparr>)) \<and>
     processPatients ts ([Some example_p1] @ None # [Some example_p2]) =
       processPatients ts ([Some example_p1] @ [Some example_p2]) \<and>
     processPatients ts ([Some example_p1] @ Some (example_p1\<lparr>patient_id := JStr []\<rparr>) # [Some example_p2]) =
       processPatients ts ([Some example_p1] @ [Some example_p2]) \<and>
     processPatients ts ([] @ Some (example_p1\<lparr>patient_id := JUndefined\<rparr>) # []) =
       processPatients ts ([] @ [])"
proof
  fix ts
  have a: "skipped None"
    by (simp add: skipped_def)
  have b: "skipped (Some (example_p1\<lparr>patient_id := JStr []\<rparr>))"
    by (simp add: skipped_def)
  have c: "skipped (Some (example_p1\<lparr>patient_id := JUndefined\<rparr>))"
    by (simp add: skipped_def)
  show "skipped None \<and> skipped (Some (example_p1\<lparr>patient_id := JStr []\<rparr>)) \<and>
     skipped (Some (example_p1\<lparr>patient_id := JUndefined\<rparr>)) \<and>
     processPatients ts ([Some example_p1] @ None # [Some example_p2]) =
       processPatients ts ([Some example_p1] @ [Some example_p2]) \<and>
     processPatients ts ([Some example_p1] @ Some (example_p1\<lparr>patient_id := JStr []\<rparr>) # [Some example_p2]) =
       processPatients ts ([Some example_p1] @ [Some example_p2]) \<and>
     processPatients ts ([] @ Some (example_p1\<lparr>patient_id := JUndefined\<rparr>) # []) =
       processPatients ts ([] @ [])"
    using a b c
      skipped_record_contributes_nothing [OF a, of ts "[Some example_p1]" "[Some example_p2]"]
      skipped_record_contributes_nothing [OF b, of ts "[Some example_p1]" "[Some example_p2]"]
      skipped_record_contributes_nothing [OF c, of ts "[]" "[]"]
    by simp
qed


section \<open>Temperature strings that begin with a number\<close>

lemma digit_facts:
  assumes "is_digit c"
  shows "\<not> is_ws c" "c \<noteq> CHR ''-''" "c \<noteq> CHR ''+''" "c \<noteq> CHR ''.''" "c \<noteq> CHR ''I''"
    "c \<noteq> CHR ''e''" "c \<noteq> CHR ''E''"
  using assms by (auto simp: is_digit_def is_ws_def)

lemma not_digit_chars:
  "\<not> is_digit (CHR ''.'')" "\<not> is_digit (CHR ''e'')" "\<not> is_digit (CHR ''E'')"
  "\<not> is_digit (CHR ''+'')" "\<not> is_digit (CHR ''-'')"
  "\<not> is_ws (CHR ''.'')" "\<not> is_ws (CHR ''+'')" "\<not> is_ws (CHR ''-'')"
  by (simp_all add: is_digit_def is_ws_def)

lemma upper_char_digit: 
  assumes "is_digit c" shows "upper_char c = c"
proof -
  have "\<forall>x \<in> set ''abcdefghijklmnopqrstuvwxyz''. \<not> is_digit x"
    by (simp add: is_digit_def)
  with assms have "c \<notin> set ''abcdefghijklmnopqrstuvwxyz''"
    by blast
  then have "map_of (zip ''abcdefghijklmnopqrstuvwxyz'' ''ABCDEFGHIJKLMNOPQRSTUVWXYZ'') c = None"
    by (simp only: map_of_eq_None_iff map_fst_zip set_map [symmetric] length_Cons list.size) simp
  then show ?thesis
    by (simp only: upper_char_def option.case)
qed

lemma span_append:
  assumes "list_all P xs" and "ys = [] \<or> \<not> P (hd ys)"
  shows "takeWhile P (xs @ ys) = xs" and "dropWhile P (xs @ ys) = ys"
  using assms by (cases ys; simp add: list_all_iff takeWhile_append2 dropWhile_append2)+

lemma dec_snoc: "dec (xs @ [y]) = 10 * dec xs + digit_val y"
  by (simp add: dec_def)

lemma dec_append: "dec (xs @ ys) = dec xs * 10 ^ length ys + dec ys"
proof (induction ys rule: rev_induct)
  case Nil
  show ?case by (simp add: dec_def)
next
  case (snoc y ys)
  have a: "dec (xs @ ys @ [y]) = 10 * dec (xs @ ys) + digit_val y"
    using dec_snoc [of "xs @ ys" y] by simp
  have b: "dec (ys @ [y]) = 10 * dec ys + digit_val y"
    by (rule dec_snoc)
  have c: "length (ys @ [y]) = Suc (length ys)"
    by simp
  show ?case
    unfolding a b c snoc.IH by (simp add: algebra_simps)
qed

lemma to_double_not_NaN: "to_double q \<noteq> NaN"
  by (simp add: to_double_def Let_def)

lemma digits_head:
  assumes "all_digits ip"
  shows "dropWhile is_ws (ip @ r) = ip @ r" and "read_sign (ip @ r) = (False, ip @ r)"
    and "take 8 (ip @ r) \<noteq> ''Infinity''" and "ip \<noteq> []" and "list_all is_digit ip"
proof -
  from assms obtain c cs where ipc: "ip = c # cs" and c: "is_digit c"
    by (cases ip) (auto simp: all_digits_def)
  show "dropWhile is_ws (ip @ r) = ip @ r" "read_sign (ip @ r) = (False, ip @ r)"
    "take 8 (ip @ r) \<noteq> ''Infinity''" "ip \<noteq> []"
    using digit_facts [OF c] by (simp_all add: ipc read_sign_def)
  show "list_all is_digit ip"
    using assms by (simp add: all_digits_def)
qed

text \<open>
  The result of \<open>parseFloat\<close> from what its steps read: the sign, the digits before and
  after the point, and the exponent.
\<close>

lemma parseFloat_str_core:
  assumes "read_sign (dropWhile is_ws s) = (neg, u)" and "take 8 u \<noteq> ''Infinity''"
    and "takeWhile is_digit u = ip" and "dropWhile is_digit u = r1"
    and "(case r1 of
            [] \<Rightarrow> ([], r1)
          | c # r \<Rightarrow> if c = CHR ''.'' then (takeWhile is_digit r, dropWhile is_digit r)
                     else ([], r1)) = (fp, r2)"
    and "ip @ fp \<noteq> []" and "read_exponent r2 = ex"
  shows "parseFloat_str s =
           to_double ((if neg then - 1 else 1) *
             (of_nat (dec (ip @ fp)) * 10 powi (ex - int (length fp))))"
proof -
  have "parseFloat_str s =
      (let q = of_nat (dec (ip @ fp)) * 10 powi (read_exponent r2 - int (length fp))
       in to_double (if neg then - q else q))"
    unfolding parseFloat_str_def assms(1) using assms(2,6)
    by (simp only: Let_def prod.case assms(3,4,5) if_False append_is_Nil_conv)
  then show ?thesis
    by (cases neg) (simp_all add: assms(7) Let_def)
qed

text \<open>What follows the sign of a well-formed literal begins with a digit or a point.\<close>

lemma unsigned_head:
  assumes "list_all is_digit ip" and "ip \<noteq> [] \<or> pt"
  shows "\<exists>c r. ip @ (if pt then CHR ''.'' # fp else []) @ x = c # r \<and>
           (is_digit c \<or> c = CHR ''.'')"
  using assms by (cases ip) auto

lemma read_sign_literal:
  assumes "sg \<in> set ['''', ''+'', ''-'']" and "u = c # r" and "is_digit c \<or> c = CHR ''.''"
  shows "read_sign (sg @ u) = (sg = ''-'', u)"
  using assms digit_facts(2,3) [of c] by (auto simp: read_sign_def)

lemma read_exponent_literal:
  assumes "(c = CHR ''e'' \<or> c = CHR ''E'')" and "sg \<in> set ['''', ''+'', ''-'']" and "all_digits ds"
    and "t = [] \<or> \<not> is_digit (hd t)"
  shows "read_exponent (c # sg @ ds @ t) = (if sg = ''-'' then - int (dec ds) else int (dec ds))"
proof -
  from assms(3) obtain d r where ds: "ds = d # r" and d: "is_digit d" and all: "list_all is_digit ds"
    by (cases ds) (auto simp: all_digits_def)
  have s: "read_sign (sg @ ds @ t) = (sg = ''-'', ds @ t)"
    using read_sign_literal [OF assms(2), of "ds @ t" d "r @ t"] d by (simp add: ds)
  have tk: "takeWhile is_digit (ds @ t) = ds"
    by (rule span_append(1) [OF all assms(4)])
  have ne: "ds \<noteq> []"
    by (simp add: ds)
  show ?thesis
    using assms(1) ne by (auto simp: read_exponent_def s tk)
qed

lemma read_exponent_absent:
  assumes "t = [] \<or> \<not> starts_exponent t"
  shows "read_exponent t = 0"
proof (cases t)
  case Nil
  then show ?thesis by (simp add: read_exponent_def)
next
  case (Cons c r)
  with assms have ns: "\<not> starts_exponent (c # r)" by simp
  show ?thesis
  proof (cases "c = CHR ''e'' \<or> c = CHR ''E''")
    case False
    then show ?thesis by (simp add: read_exponent_def Cons)
  next
    case True
    have "takeWhile is_digit (snd (read_sign r)) = []"
    proof (cases r)
      case Nil
      then show ?thesis by (simp add: read_sign_def)
    next
      case r: (Cons d r')
      from ns True r have nd: "\<not> is_digit d"
        and sgn: "d = CHR ''+'' \<or> d = CHR ''-'' \<Longrightarrow> r' = [] \<or> \<not> is_digit (hd r')"
        by (auto simp: starts_exponent_def split: list.splits)
      show ?thesis
      proof (cases "d = CHR ''+'' \<or> d = CHR ''-''")
        case True
        with sgn show ?thesis
          by (cases r') (auto simp: read_sign_def r)
      next
        case False
        with nd show ?thesis
          by (simp add: read_sign_def r)
      qed
    qed
    then show ?thesis
      by (simp add: read_exponent_def Cons split_beta)
  qed
qed

lemma literal_value_code:
  "(if neg then - 1 else 1) * (of_nat (dec (ip @ fp)) * 10 powi (ex - int (length fp))) =
   (if neg then - 1 else 1) * (of_nat (dec ip) + of_nat (dec fp) / 10 ^ length fp) * (10::rat) powi ex"
proof -
  have p: "(10::rat) powi (ex - int (length fp)) = 10 powi ex / 10 ^ length fp"
    by (simp add: power_int_diff)
  have d: "(of_nat (dec (ip @ fp)) :: rat) = of_nat (dec ip) * 10 ^ length fp + of_nat (dec fp)"
    by (simp add: dec_append)
  have "(of_nat (dec (ip @ fp)) :: rat) * (10 powi ex / 10 ^ length fp) =
      (of_nat (dec ip) + of_nat (dec fp) / 10 ^ length fp) * 10 powi ex"
    unfolding d by (simp add: field_simps)
  then show ?thesis
    unfolding p by simp
qed

text \<open>
  \<open>parseFloat\<close> reads a well-formed literal, after white space and before text that does
  not continue it, as the Number nearest to the value of the literal.
\<close>

lemma parseFloat_str_literal:
  assumes w: "list_all is_ws w" and wf: "well_formed l" and mf: "may_follow l t"
  shows "parseFloat_str (w @ literal_text l @ t) = to_double (literal_value l)"
proof -
  define sg ip pt fp where "sg = sign_part l" and "ip = int_part l" and "pt = point l"
    and "fp = frac_part l"
  define x where "x = exponent_text l @ t"
  define r1 where "r1 = (if pt then CHR ''.'' # fp else []) @ x"
  define u where "u = ip @ r1"
  have lit: "w @ literal_text l @ t = w @ sg @ u"
    by (simp add: literal_text_def sg_def ip_def pt_def fp_def x_def r1_def u_def)
  from wf have sg: "sg \<in> set ['''', ''+'', ''-'']" and ip: "list_all is_digit ip"
    and fp: "list_all is_digit fp" and pf: "pt \<or> fp = []" and ne: "ip @ fp \<noteq> []"
    by (simp_all add: well_formed_def sg_def ip_def pt_def fp_def)
  have tdig: "t = [] \<or> \<not> is_digit (hd t)"
    using mf by (auto simp: may_follow_def)
  have xdig: "x = [] \<or> \<not> is_digit (hd x)"
  proof (cases "exp_part l")
    case None
    with tdig show ?thesis by (simp add: x_def exponent_text_def)
  next
    case (Some e)
    with wf show ?thesis
      by (cases e) (auto simp: x_def exponent_text_def well_formed_def not_digit_chars)
  qed
  have xpoint: "\<not> pt \<Longrightarrow> x = [] \<or> hd x \<noteq> CHR ''.''"
  proof (cases "exp_part l")
    case None
    assume "\<not> pt"
    with None mf show ?thesis
      by (auto simp: x_def exponent_text_def may_follow_def pt_def)
  next
    case (Some e)
    with wf show ?thesis
      by (cases e) (auto simp: x_def exponent_text_def well_formed_def)
  qed
  have r1dig: "r1 = [] \<or> \<not> is_digit (hd r1)"
    using xdig by (simp add: r1_def not_digit_chars)
  have "ip \<noteq> [] \<or> pt"
    using ne pf by auto
  from unsigned_head [OF ip this, of fp x] obtain c r where
    ucr: "u = c # r" and c: "is_digit c \<or> c = CHR ''.''"
    by (auto simp: u_def r1_def)
  have cws: "\<not> is_ws c" and cI: "c \<noteq> CHR ''I''"
    using c digit_facts(1,5) [of c] by (auto simp: is_ws_def)
  have "sg @ u = [] \<or> \<not> is_ws (hd (sg @ u))"
    using sg cws by (auto simp: ucr not_digit_chars)
  from span_append(2) [OF w this] have 1: "dropWhile is_ws (w @ sg @ u) = sg @ u" .
  have 2: "read_sign (dropWhile is_ws (w @ sg @ u)) = (sg = ''-'', u)"
    unfolding 1 by (rule read_sign_literal [OF sg ucr c])
  have 3: "take 8 u \<noteq> ''Infinity''"
    using cI by (simp add: ucr)
  have 4: "takeWhile is_digit u = ip" and 5: "dropWhile is_digit u = r1"
    unfolding u_def by (rule span_append [OF ip r1dig])+
  have 6: "(case r1 of
            [] \<Rightarrow> ([], r1)
          | c # r \<Rightarrow> if c = CHR ''.'' then (takeWhile is_digit r, dropWhile is_digit r)
                     else ([], r1)) = (fp, x)"
  proof (cases pt)
    case True
    then show ?thesis
      by (simp add: r1_def span_append [OF fp xdig])
  next
    case False
    with pf have "fp = []" by simp
    with False xpoint [OF False] show ?thesis
      by (cases x) (simp_all add: r1_def)
  qed
  have 7: "read_exponent x = exponent_value l"
  proof (cases "exp_part l")
    case None
    with mf have "t = [] \<or> \<not> starts_exponent t"
      by (auto simp: may_follow_def)
    from read_exponent_absent [OF this] None show ?thesis
      by (simp add: x_def exponent_text_def exponent_value_def)
  next
    case (Some e)
    obtain c' sg' ds where e: "e = (c', sg', ds)"
      by (cases e)
    from wf Some e have "c' = CHR ''e'' \<or> c' = CHR ''E''" "sg' \<in> set ['''', ''+'', ''-'']"
      "all_digits ds"
      by (simp_all add: well_formed_def)
    from read_exponent_literal [OF this tdig] Some e show ?thesis
      by (simp add: x_def exponent_text_def exponent_value_def)
  qed
  have "parseFloat_str (w @ sg @ u) =
      to_double ((if sg = ''-'' then - 1 else 1) *
        (of_nat (dec (ip @ fp)) * 10 powi (exponent_value l - int (length fp))))"
    by (rule parseFloat_str_core [OF 2 3 4 5 6 ne 7])
  then show ?thesis
    unfolding lit literal_value_code
    by (simp add: literal_value_def sg_def ip_def fp_def)
qed

lemma parseFloat_str_infinity:
  assumes w: "list_all is_ws w" and sg: "sg \<in> set ['''', ''+'', ''-'']"
  shows "parseFloat_str (w @ sg @ ''Infinity'' @ t) = (if sg = ''-'' then NegInf else PosInf)"
proof -
  define u where "u = ''Infinity'' @ t"
  define r where "r = ''nfinity'' @ t"
  have tk: "take 8 u = ''Infinity''" and u: "u = CHR ''I'' # r"
    by (simp_all add: u_def r_def)
  have "sg @ u = [] \<or> \<not> is_ws (hd (sg @ u))"
    using sg by (auto simp: u is_ws_def)
  from span_append(2) [OF w this]
  have 1: "dropWhile is_ws (w @ sg @ u) = sg @ u" .
  have "read_sign (sg @ CHR ''I'' # r) = (sg = ''-'', CHR ''I'' # r)"
    using sg by (auto simp: read_sign_def)
  then have 2: "read_sign (sg @ u) = (sg = ''-'', u)"
    by (simp only: u)
  have "parseFloat_str (w @ sg @ u) = (if sg = ''-'' then NegInf else PosInf)"
    by (simp add: parseFloat_str_def 1 2 tk)
  then show ?thesis
    by (simp only: u_def)
qed

lemma parseFloat_str_numeric_prefix:
  assumes "list_all is_ws w" and "well_formed_prefix p" and "ends_before p t"
  shows "parseFloat_str (w @ prefix_text p @ t) = prefix_value p"
proof (cases p)
  case (Decimal l)
  with assms parseFloat_str_literal [of w l t] show ?thesis
    by simp
next
  case (Infinite sg)
  with assms parseFloat_str_infinity [of w sg t] show ?thesis
    by simp
qed

lemma prefix_value_not_NaN: "prefix_value p \<noteq> NaN"
  by (cases p) (simp_all add: to_double_not_NaN)

text \<open>A string with a digit or a \<open>y\<close> in it is none of the tokens of \<open>getTempRisk\<close>.\<close>

lemma not_temperature_token:
  assumes "c \<in> set s" and "is_digit c \<or> c = CHR ''y''"
  shows "toUpperCase s \<notin> set [''INVALID'', ''ERROR'', ''TEMP_ERROR'', ''N/A'', ''NULL'', ''UNDEFINED'']"
proof
  assume m: "toUpperCase s \<in> set [''INVALID'', ''ERROR'', ''TEMP_ERROR'', ''N/A'', ''NULL'', ''UNDEFINED'']"
  have y: "upper_char (CHR ''y'') = CHR ''Y''"
    by (simp add: upper_char_def)
  from assms(2) have u: "is_digit (upper_char c) \<or> upper_char c = CHR ''Y''"
    using y upper_char_digit [of c] by auto
  have "upper_char c \<in> set (toUpperCase s)"
    using assms(1) by (simp add: toUpperCase_def)
  moreover have "\<forall>w \<in> set [''INVALID'', ''ERROR'', ''TEMP_ERROR'', ''N/A'', ''NULL'', ''UNDEFINED''].
      \<forall>x \<in> set w. \<not> is_digit x \<and> x \<noteq> CHR ''Y''"
    by (simp add: is_digit_def)
  ultimately show False
    using m u by blast
qed

lemma prefix_has_digit_or_y:
  assumes "well_formed_prefix p"
  shows "\<exists>c \<in> set (prefix_text p). is_digit c \<or> c = CHR ''y''"
proof (cases p)
  case (Decimal l)
  with assms have d: "list_all is_digit (int_part l @ frac_part l)" "int_part l @ frac_part l \<noteq> []"
    by (simp_all add: well_formed_def)
  from Decimal assms have pf: "point l \<or> frac_part l = []"
    by (simp add: well_formed_def)
  from d obtain c where "c \<in> set (int_part l @ frac_part l)" "is_digit c"
    by (cases "int_part l @ frac_part l") (auto simp del: append_is_Nil_conv)
  with pf have "c \<in> set (literal_text l)"
    by (auto simp: literal_text_def list_all_iff split: if_splits)
  with \<open>is_digit c\<close> Decimal show ?thesis
    by auto
next
  case (Infinite sg)
  then show ?thesis by simp
qed

lemma getTempRisk_numeric_prefix:
  assumes "well_formed_prefix p" and "parseFloat_str (w @ prefix_text p @ t) = prefix_value p"
  shows "getTempRisk ts (JStr (w @ prefix_text p @ t)) =
           \<lparr>score = (if js_le (prefix_value p) num_99_5 then 0
                     else if js_ge (prefix_value p) num_99_6 \<and> js_le (prefix_value p) num_100_9 then 1
                     else if js_ge (prefix_value p) num_101_0 then 2
                     else 0),
            hasIssue = False\<rparr>"
proof -
  from prefix_has_digit_or_y [OF assms(1)] obtain c where
    c: "c \<in> set (w @ prefix_text p @ t)" "is_digit c \<or> c = CHR ''y''"
    by auto
  note tok = not_temperature_token [OF c]
  from c(1) have ne: "w @ prefix_text p @ t \<noteq> []"
    by auto
  show ?thesis
    unfolding getTempRisk_def parseFloat_def
    using tok ne by (simp add: assms(2) prefix_value_not_NaN isNaN_def Let_def)
qed

text \<open>
  Text that continues a well-formed literal begins with characters that make a longer
  well-formed literal.
\<close>

lemma literal_extends:
  assumes "well_formed l" and "\<not> may_follow l t"
  shows "\<exists>l1 r. literal_text l @ t = literal_text l1 @ r \<and> well_formed l1 \<and> length r < length t"
proof -
  from assms(2) obtain c r where t: "t = c # r"
    by (cases t) (auto simp: may_follow_def)
  from assms(2) t have alt: "is_digit c \<or> (exp_part l = None \<and> starts_exponent t) \<or>
      (exp_part l = None \<and> \<not> point l \<and> c = CHR ''.'')"
    by (auto simp: may_follow_def)
  from assms(1) have wf: "sign_part l \<in> set ['''', ''+'', ''-'']" "list_all is_digit (int_part l)"
    "list_all is_digit (frac_part l)" "point l \<or> frac_part l = []" "int_part l @ frac_part l \<noteq> []"
    by (simp_all add: well_formed_def)
  show ?thesis
  proof (cases "is_digit c")
    case True
    show ?thesis
    proof (cases "exp_part l")
      case (Some e)
      obtain x sg ds where e: "e = (x, sg, ds)"
        by (cases e)
      let ?l = "l\<lparr>exp_part := Some (x, sg, ds @ [c])\<rparr>"
      have "literal_text l @ t = literal_text ?l @ r"
        by (simp add: literal_text_def exponent_text_def Some e t)
      moreover have "well_formed ?l"
        using assms(1) True by (simp add: well_formed_def Some e all_digits_def)
      ultimately show ?thesis
        using t by (intro exI [of _ ?l] exI [of _ r]) simp
    next
      case None
      show ?thesis
      proof (cases "point l")
        case True
        let ?l = "l\<lparr>frac_part := frac_part l @ [c]\<rparr>"
        have "literal_text l @ t = literal_text ?l @ r"
          by (simp add: literal_text_def exponent_text_def None True t)
        moreover have "well_formed ?l"
          using assms(1) \<open>is_digit c\<close> True by (simp add: well_formed_def None)
        ultimately show ?thesis
          using t by (intro exI [of _ ?l] exI [of _ r]) simp
      next
        case False
        let ?l = "l\<lparr>int_part := int_part l @ [c]\<rparr>"
        have "literal_text l @ t = literal_text ?l @ r"
          by (simp add: literal_text_def exponent_text_def None False t)
        moreover have "well_formed ?l"
          using assms(1) \<open>is_digit c\<close> False by (simp add: well_formed_def None)
        ultimately show ?thesis
          using t by (intro exI [of _ ?l] exI [of _ r]) simp
      qed
    qed
  next
    case nd: False
    show ?thesis
    proof (cases "exp_part l = None \<and> starts_exponent t")
      case True
      then have none: "exp_part l = None" and se: "starts_exponent (c # r)"
        by (simp_all add: t)
      from se have c: "c = CHR ''e'' \<or> c = CHR ''E''"
        by (simp add: starts_exponent_def)
      from se obtain d r1 where r: "r = d # r1"
        by (cases r) (simp_all add: starts_exponent_def)
      show ?thesis
      proof (cases "is_digit d")
        case True
        let ?l = "l\<lparr>exp_part := Some (c, [], [d])\<rparr>"
        have "literal_text l @ t = literal_text ?l @ r1"
          by (simp add: literal_text_def exponent_text_def none t r)
        moreover have "well_formed ?l"
          using assms(1) True c by (simp add: well_formed_def none all_digits_def)
        ultimately show ?thesis
          using t r by (intro exI [of _ ?l] exI [of _ r1]) simp
      next
        case False
        with se r obtain d1 r2 where r1: "r1 = d1 # r2" and d: "d = CHR ''+'' \<or> d = CHR ''-''"
          and d1: "is_digit d1"
          by (cases r1) (auto simp: starts_exponent_def)
        let ?l = "l\<lparr>exp_part := Some (c, [d], [d1])\<rparr>"
        have "literal_text l @ t = literal_text ?l @ r2"
          by (simp add: literal_text_def exponent_text_def none t r r1)
        moreover have "well_formed ?l"
          using assms(1) d d1 c by (auto simp: well_formed_def none all_digits_def)
        ultimately show ?thesis
          using t r r1 by (intro exI [of _ ?l] exI [of _ r2]) simp
      qed
    next
      case False
      with alt nd have h: "exp_part l = None" "\<not> point l" "c = CHR ''.''"
        by auto
      with wf(4) have f: "frac_part l = []"
        by simp
      let ?l = "l\<lparr>point := True\<rparr>"
      have "literal_text l @ t = literal_text ?l @ r"
        by (simp add: literal_text_def exponent_text_def h f t)
      moreover have "well_formed ?l"
        using assms(1) by (auto simp: well_formed_def h)
      ultimately show ?thesis
        using t by (intro exI [of _ ?l] exI [of _ r]) simp
    qed
  qed
qed

text \<open>
  Every text after a well-formed literal splits into the rest of the longest literal that
  begins there and text that does not continue it.
\<close>

lemma longest_literal:
  assumes "well_formed l"
  shows "\<exists>l1 r. literal_text l @ t = literal_text l1 @ r \<and> well_formed l1 \<and> may_follow l1 r"
  using assms
proof (induction "length t" arbitrary: l t rule: less_induct)
  case less
  show ?case
  proof (cases "may_follow l t")
    case True
    with less.prems show ?thesis
      by blast
  next
    case False
    from literal_extends [OF less.prems False] obtain l1 r where
      e: "literal_text l @ t = literal_text l1 @ r" and w: "well_formed l1" and s: "length r < length t"
      by blast
    from less.hyps [OF s w] e show ?thesis
      by simp
  qed
qed

lemma longest_prefix:
  assumes "well_formed_prefix p"
  shows "\<exists>p1 r. prefix_text p @ t = prefix_text p1 @ r \<and> well_formed_prefix p1 \<and> ends_before p1 r"
proof (cases p)
  case (Decimal l)
  with assms have "well_formed l"
    by simp
  from longest_literal [OF this, of t] obtain l1 r where
    "literal_text l @ t = literal_text l1 @ r" "well_formed l1" "may_follow l1 r"
    by blast
  with Decimal show ?thesis
    by (intro exI [of _ "Decimal l1"] exI [of _ r]) simp
next
  case (Infinite sg)
  with assms show ?thesis
    by (intro exI [of _ p] exI [of _ t]) simp
qed

text \<open>
  So a string that begins, after white space, with a numeric prefix is never a failed
  parse, whatever follows the prefix.
\<close>

lemma numeric_start_never_fails:
  assumes "list_all is_ws w" and "well_formed_prefix p"
  shows "parseFloat ts (JStr (w @ prefix_text p @ t)) \<noteq> NaN \<and>
         hasIssue (getTempRisk ts (JStr (w @ prefix_text p @ t))) = False \<and>
         isFever ts (JStr (w @ prefix_text p @ t)) =
           js_ge (parseFloat ts (JStr (w @ prefix_text p @ t))) num_99_6"
proof -
  from longest_prefix [OF assms(2), of t] obtain p1 r where
    e: "prefix_text p @ t = prefix_text p1 @ r" and w: "well_formed_prefix p1" and f: "ends_before p1 r"
    by blast
  have a: "parseFloat_str (w @ prefix_text p1 @ r) = prefix_value p1"
    by (rule parseFloat_str_numeric_prefix [OF assms(1) w f])
  from getTempRisk_numeric_prefix [OF w a, of ts] a prefix_value_not_NaN [of p1]
  show ?thesis
    by (simp add: e parseFloat_def isFever_def isNaN_def)
qed

text \<open>The literals \<open>99.9\<close>, \<open>-40\<close> and \<open>1.015e2\<close>.\<close>

lemma literal_values:
  "literal_value \<lparr>sign_part = [], int_part = ''99'', point = True, frac_part = ''9'', exp_part = None\<rparr>
     = 999 / 10"
  "literal_value \<lparr>sign_part = ''-'', int_part = ''40'', point = False, frac_part = [], exp_part = None\<rparr>
     = - 40"
  "literal_value \<lparr>sign_part = [], int_part = ''1'', point = True, frac_part = ''015'',
     exp_part = Some (CHR ''e'', [], ''2'')\<rparr> = 203 / 2"
  by (simp_all add: literal_value_def exponent_value_def dec_def digit_val_def)

lemma literal_hyps:
  "well_formed \<lparr>sign_part = [], int_part = ''99'', point = True, frac_part = ''9'', exp_part = None\<rparr>"
  "may_follow \<lparr>sign_part = [], int_part = ''99'', point = True, frac_part = ''9'', exp_part = None\<rparr> ''F''"
  "may_follow \<lparr>sign_part = [], int_part = ''99'', point = True, frac_part = ''9'', exp_part = None\<rparr> ''E''"
  "well_formed \<lparr>sign_part = ''-'', int_part = ''40'', point = False, frac_part = [], exp_part = None\<rparr>"
  "may_follow \<lparr>sign_part = ''-'', int_part = ''40'', point = False, frac_part = [], exp_part = None\<rparr> ''F''"
  "well_formed \<lparr>sign_part = [], int_part = ''1'', point = True, frac_part = ''015'',
     exp_part = Some (CHR ''e'', [], ''2'')\<rparr>"
  "may_follow \<lparr>sign_part = [], int_part = ''1'', point = True, frac_part = ''015'',
     exp_part = Some (CHR ''e'', [], ''2'')\<rparr> ''F''"
  by (simp_all add: well_formed_def may_follow_def starts_exponent_def all_digits_def is_digit_def)

lemma to_double_999_10: "to_double (999 / 10) = Fin (7029837543348634 / 2 ^ 46)"
  by (simp add: num_eval)

lemma to_double_203_2: "to_double (203 / 2) = Fin (203 / 2)"
  by (simp add: num_eval)

text \<open>
  C10. A temperature string made of a numeric prefix and trailing text is parsed as the
  number that the prefix denotes. The prefix is any decimal literal of \<open>parseFloat\<close> (an
  optional sign, digits with an optional point and fraction, or a point and fraction
  digits, and an optional exponent part) or a signed \<open>Infinity\<close>; it may come after white
  space; the trailing text \<open>t\<close> is any text that does not continue the literal, such as
  the \<open>F\<close> of \<open>99.9F\<close> and of \<open>-40F\<close>, or the \<open>E\<close> of \<open>99.9E\<close>. For such a string \<open>parseFloat\<close>
  gives the Number of the prefix and not \<open>NaN\<close>; \<open>getTempRisk\<close> gives the band of that
  Number with the issue flag clear, which is what it gives for the prefix alone; and the
  fever test is whether that Number is at least 99.6, as for the prefix alone. Whatever
  text \<open>t'\<close> follows the prefix, even text that continues the literal, the parse does not
  fail and the issue flag is clear.
\<close>

theorem numeric_prefix_is_parsed:
  assumes "list_all is_ws w" and "well_formed_prefix p" and "ends_before p t"
  shows "parseFloat ts (JStr (w @ prefix_text p @ t)) = prefix_value p \<and>
         parseFloat ts (JStr (w @ prefix_text p @ t)) \<noteq> NaN \<and>
         getTempRisk ts (JStr (w @ prefix_text p @ t)) =
           \<lparr>score = (if js_le (prefix_value p) num_99_5 then 0
                     else if js_ge (prefix_value p) num_99_6 \<and> js_le (prefix_value p) num_100_9 then 1
                     else if js_ge (prefix_value p) num_101_0 then 2
                     else 0),
            hasIssue = False\<rparr> \<and>
         getTempRisk ts (JStr (w @ prefix_text p @ t)) = getTempRisk ts (JStr (prefix_text p)) \<and>
         isFever ts (JStr (w @ prefix_text p @ t)) = js_ge (prefix_value p) num_99_6 \<and>
         isFever ts (JStr (w @ prefix_text p @ t)) = isFever ts (JStr (prefix_text p)) \<and>
         (\<forall>t'. parseFloat ts (JStr (w @ prefix_text p @ t')) \<noteq> NaN \<and>
               hasIssue (getTempRisk ts (JStr (w @ prefix_text p @ t'))) = False)"
proof -
  have e: "ends_before p []"
    by (cases p) (simp_all add: may_follow_def)
  have a: "parseFloat_str (w @ prefix_text p @ t) = prefix_value p"
    by (rule parseFloat_str_numeric_prefix [OF assms])
  have "parseFloat_str ([] @ prefix_text p @ []) = prefix_value p"
    by (rule parseFloat_str_numeric_prefix [OF _ assms(2) e]) simp
  then have b: "parseFloat_str (prefix_text p) = prefix_value p"
    by simp
  have g: "getTempRisk ts (JStr (w @ prefix_text p @ t)) =
           \<lparr>score = (if js_le (prefix_value p) num_99_5 then 0
                     else if js_ge (prefix_value p) num_99_6 \<and> js_le (prefix_value p) num_100_9 then 1
                     else if js_ge (prefix_value p) num_101_0 then 2
                     else 0),
            hasIssue = False\<rparr>"
    by (rule getTempRisk_numeric_prefix [OF assms(2) a])
  have "getTempRisk ts (JStr ([] @ prefix_text p @ [])) =
           \<lparr>score = (if js_le (prefix_value p) num_99_5 then 0
                     else if js_ge (prefix_value p) num_99_6 \<and> js_le (prefix_value p) num_100_9 then 1
                     else if js_ge (prefix_value p) num_101_0 then 2
                     else 0),
            hasIssue = False\<rparr>"
    by (rule getTempRisk_numeric_prefix [OF assms(2)]) (simp add: b)
  then have h: "getTempRisk ts (JStr (w @ prefix_text p @ t)) = getTempRisk ts (JStr (prefix_text p))"
    by (simp only: g append_Nil append_Nil2)
  have f: "isFever ts (JStr (w @ prefix_text p @ t)) = js_ge (prefix_value p) num_99_6"
    "isFever ts (JStr (prefix_text p)) = js_ge (prefix_value p) num_99_6"
    by (simp_all add: isFever_def parseFloat_def a b isNaN_def prefix_value_not_NaN)
  have n: "parseFloat ts (JStr (w @ prefix_text p @ t)) = prefix_value p"
    by (simp add: parseFloat_def a)
  have s: "\<forall>t'. parseFloat ts (JStr (w @ prefix_text p @ t')) \<noteq> NaN \<and>
      hasIssue (getTempRisk ts (JStr (w @ prefix_text p @ t'))) = False"
    using numeric_start_never_fails [OF assms(1,2)] by blast
  from n g h f s prefix_value_not_NaN [of p] show ?thesis
    by (simp only: simp_thms)
qed

theorem numeric_prefix_is_parsed_witness:
  "\<forall>ts.
     well_formed_prefix (Decimal \<lparr>sign_part = [], int_part = ''99'', point = True, frac_part = ''9'',
       exp_part = None\<rparr>) \<and>
     ends_before (Decimal \<lparr>sign_part = [], int_part = ''99'', point = True, frac_part = ''9'',
       exp_part = None\<rparr>) ''F'' \<and>
     parseFloat ts (JStr ''99.9F'') = Fin (7029837543348634 / 2 ^ 46) \<and>
     getTempRisk ts (JStr ''99.9F'') = \<lparr>score = 1, hasIssue = False\<rparr> \<and>
     isFever ts (JStr ''99.9F'') \<and>
     ends_before (Decimal \<lparr>sign_part = [], int_part = ''99'', point = True, frac_part = ''9'',
       exp_part = None\<rparr>) ''E'' \<and>
     parseFloat ts (JStr ''99.9E'') = Fin (7029837543348634 / 2 ^ 46) \<and>
     getTempRisk ts (JStr ''99.9E'') = \<lparr>score = 1, hasIssue = False\<rparr> \<and>
     isFever ts (JStr ''99.9E'') \<and>
     well_formed_prefix (Decimal \<lparr>sign_part = ''-'', int_part = ''40'', point = False, frac_part = [],
       exp_part = None\<rparr>) \<and>
     ends_before (Decimal \<lparr>sign_part = ''-'', int_part = ''40'', point = False, frac_part = [],
       exp_part = None\<rparr>) ''F'' \<and>
     parseFloat ts (JStr ''-40F'') = Fin (- 40) \<and>
     getTempRisk ts (JStr ''-40F'') = \<lparr>score = 0, hasIssue = False\<rparr> \<and>
     \<not> isFever ts (JStr ''-40F'') \<and>
     list_all is_ws '' '' \<and>
     well_formed_prefix (Decimal \<lparr>sign_part = [], int_part = ''1'', point = True, frac_part = ''015'',
       exp_part = Some (CHR ''e'', [], ''2'')\<rparr>) \<and>
     ends_before (Decimal \<lparr>sign_part = [], int_part = ''1'', point = True, frac_part = ''015'',
       exp_part = Some (CHR ''e'', [], ''2'')\<rparr>) ''F'' \<and>
     parseFloat ts (JStr '' 1.015e2F'') = Fin (203 / 2) \<and>
     getTempRisk ts (JStr '' 1.015e2F'') = \<lparr>score = 2, hasIssue = False\<rparr> \<and>
     isFever ts (JStr '' 1.015e2F'') \<and>
     well_formed_prefix (Infinite ''+'') \<and> ends_before (Infinite ''+'') ''F'' \<and>
     parseFloat ts (JStr ''+InfinityF'') = PosInf \<and>
     getTempRisk ts (JStr ''+InfinityF'') = \<lparr>score = 2, hasIssue = False\<rparr> \<and>
     isFever ts (JStr ''+InfinityF'')"
proof
  fix ts
  let ?a = "Decimal \<lparr>sign_part = [], int_part = ''99'', point = True, frac_part = ''9'',
       exp_part = None\<rparr>"
  let ?b = "Decimal \<lparr>sign_part = ''-'', int_part = ''40'', point = False, frac_part = [],
       exp_part = None\<rparr>"
  let ?c = "Decimal \<lparr>sign_part = [], int_part = ''1'', point = True, frac_part = ''015'',
       exp_part = Some (CHR ''e'', [], ''2'')\<rparr>"
  let ?d = "Infinite ''+''"
  have h: "list_all is_ws []" "list_all is_ws '' ''"
    "well_formed_prefix ?a" "ends_before ?a ''F''" "ends_before ?a ''E''"
    "well_formed_prefix ?b" "ends_before ?b ''F''"
    "well_formed_prefix ?c" "ends_before ?c ''F''"
    "well_formed_prefix ?d" "ends_before ?d ''F''"
    by (simp_all add: literal_hyps is_ws_def)
  note r = numeric_prefix_is_parsed [OF h(1) h(3) h(4), of ts]
    numeric_prefix_is_parsed [OF h(1) h(3) h(5), of ts]
    numeric_prefix_is_parsed [OF h(1) h(6) h(7), of ts]
    numeric_prefix_is_parsed [OF h(2) h(8) h(9), of ts]
    numeric_prefix_is_parsed [OF h(1) h(10) h(11), of ts]
  from r h show "well_formed_prefix ?a \<and> ends_before ?a ''F'' \<and>
     parseFloat ts (JStr ''99.9F'') = Fin (7029837543348634 / 2 ^ 46) \<and>
     getTempRisk ts (JStr ''99.9F'') = \<lparr>score = 1, hasIssue = False\<rparr> \<and>
     isFever ts (JStr ''99.9F'') \<and>
     ends_before ?a ''E'' \<and>
     parseFloat ts (JStr ''99.9E'') = Fin (7029837543348634 / 2 ^ 46) \<and>
     getTempRisk ts (JStr ''99.9E'') = \<lparr>score = 1, hasIssue = False\<rparr> \<and>
     isFever ts (JStr ''99.9E'') \<and>
     well_formed_prefix ?b \<and> ends_before ?b ''F'' \<and>
     parseFloat ts (JStr ''-40F'') = Fin (- 40) \<and>
     getTempRisk ts (JStr ''-40F'') = \<lparr>score = 0, hasIssue = False\<rparr> \<and>
     \<not> isFever ts (JStr ''-40F'') \<and>
     list_all is_ws '' '' \<and>
     well_formed_prefix ?c \<and> ends_before ?c ''F'' \<and>
     parseFloat ts (JStr '' 1.015e2F'') = Fin (203 / 2) \<and>
     getTempRisk ts (JStr '' 1.015e2F'') = \<lparr>score = 2, hasIssue = False\<rparr> \<and>
     isFever ts (JStr '' 1.015e2F'') \<and>
     well_formed_prefix ?d \<and> ends_before ?d ''F'' \<and>
     parseFloat ts (JStr ''+InfinityF'') = PosInf \<and>
     getTempRisk ts (JStr ''+InfinityF'') = \<lparr>score = 2, hasIssue = False\<rparr> \<and>
     isFever ts (JStr ''+InfinityF'')"
    by (simp add: literal_text_def exponent_text_def literal_values to_double_999_10 to_double_203_2 to_double_minus_40
          js_ge_def num_99_5_value num_99_6_value num_100_9_value num_101_0_value)
qed


section \<open>Age\<close>

lemma contains_hd: "contains w s \<Longrightarrow> w \<noteq> [] \<Longrightarrow> hd w \<in> set s"
proof (induction s)
  case Nil
  then show ?case by simp
next
  case (Cons c cs)
  show ?case
  proof (cases "take (length w) (c # cs) = w")
    case True
    with Cons.prems(2) have "hd w = c"
      by (cases w) auto
    then show ?thesis by simp
  next
    case False
    with Cons show ?thesis by simp
  qed
qed

lemma toUpperCase_digits: "list_all is_digit s \<Longrightarrow> toUpperCase s = s"
  by (induction s) (simp_all add: toUpperCase_def upper_char_digit)

lemma no_age_token_in_digits:
  assumes "list_all is_digit s"
  shows "\<not> list_ex (\<lambda>w. contains w (toUpperCase s))
           [''UNKNOWN'', ''INVALID'', ''ERROR'', ''NA'', ''NULL'', ''UNDEFINED'']"
proof
  assume "list_ex (\<lambda>w. contains w (toUpperCase s))
           [''UNKNOWN'', ''INVALID'', ''ERROR'', ''NA'', ''NULL'', ''UNDEFINED'']"
  then obtain w where w: "w \<in> set [''UNKNOWN'', ''INVALID'', ''ERROR'', ''NA'', ''NULL'', ''UNDEFINED'']"
    and c: "contains w s"
    unfolding list_ex_iff toUpperCase_digits [OF assms] by blast
  have "\<forall>w \<in> set [''UNKNOWN'', ''INVALID'', ''ERROR'', ''NA'', ''NULL'', ''UNDEFINED'']. w \<noteq> [] \<and> \<not> is_digit (hd w)"
    by (simp add: is_digit_def)
  with w have "w \<noteq> []" and nd: "\<not> is_digit (hd w)"
    by blast+
  with c have "hd w \<in> set s"
    by (intro contains_hd)
  with assms nd show False
    by (simp add: list_all_iff)
qed

lemma trim_digits:
  assumes "all_digits s" shows "trim s = s"
proof -
  from assms have ne: "s \<noteq> []" and all: "list_all is_digit s"
    by (simp_all add: all_digits_def)
  have a: "dropWhile is_ws s = s"
    using digits_head(1) [OF assms, of "[]"] by simp
  have "is_digit (last s)"
    using ne all by (simp add: list_all_iff)
  then have "\<not> is_ws (hd (rev s))"
    using ne digit_facts(1) by (simp add: hd_rev)
  then have "dropWhile is_ws (rev s) = rev s"
    using ne by (cases "rev s") simp_all
  with a show ?thesis
    by (simp add: trim_def)
qed

lemma parseInt10_digits:
  assumes "all_digits s" shows "parseInt10 s = Some (int (dec s))"
proof -
  note h = digits_head(1,2) [OF assms, of "[]", simplified]
  have tw: "takeWhile is_digit s = s"
    using digits_head(5) [OF assms] by (simp add: list_all_iff)
  have ne: "s \<noteq> []"
    by (rule digits_head(4) [OF assms])
  show ?thesis
    by (simp add: parseInt10_def h tw ne)
qed

lemma getAgeRisk_digits:
  assumes "all_digits s"
  shows "getAgeRisk ts (JStr s) =
           (if dec s = 0 then \<lparr>score = 0, hasIssue = True\<rparr>
            else \<lparr>score = age_band (int (dec s)), hasIssue = False\<rparr>)"
proof -
  from assms have ne: "s \<noteq> []" and all: "list_all is_digit s"
    by (simp_all add: all_digits_def)
  show ?thesis
    unfolding getAgeRisk_def
    using ne no_age_token_in_digits [OF all] assms
    by (simp add: trim_digits [OF assms] parseInt_def parseInt10_digits [OF assms] age_band_def)
qed

lemma getAgeRisk_number:
  assumes "all_digits (ts n)"
  shows "getAgeRisk ts (JNum n) = getAgeRisk ts (JStr (ts n))"
  unfolding getAgeRisk_digits [OF assms]
  by (simp add: getAgeRisk_def parseInt_def parseInt10_digits [OF assms] age_band_def)

text \<open>
  Whatever the string form of Numbers: an input that \<open>getAgeRisk\<close> does not flag has a
  positive parsed age \<open>ageNum\<close>, and of two such inputs the one with the smaller or equal
  parsed age has the smaller or equal score.
\<close>

lemma age_score_monotone_in_parsed_age:
  "(\<not> hasIssue (getAgeRisk ts a) \<longrightarrow> (\<exists>x. parseInt ts a = Some x \<and> 0 < x)) \<and>
   (\<not> hasIssue (getAgeRisk ts a) \<and> \<not> hasIssue (getAgeRisk ts b) \<and>
    parseInt ts a = Some x \<and> parseInt ts b = Some y \<and> x \<le> y
      \<longrightarrow> score (getAgeRisk ts a) \<le> score (getAgeRisk ts b))"
  by (auto simp: getAgeRisk_def split: if_splits option.splits)

text \<open>
  Ages written as strings of digits: a positive age is not flagged, and the score is
  non-decreasing in the age written.
\<close>

lemma age_score_monotone_digit_strings:
  assumes "all_digits s" and "all_digits t" and "0 < dec s" and "dec s \<le> dec t"
  shows "\<not> hasIssue (getAgeRisk ts (JStr s))" and "\<not> hasIssue (getAgeRisk ts (JStr t))"
    and "score (getAgeRisk ts (JStr s)) \<le> score (getAgeRisk ts (JStr t))"
  using assms(3,4) by (simp_all add: getAgeRisk_digits [OF assms(1)] getAgeRisk_digits [OF assms(2)] age_band_def)

text \<open>The ages 39, 40, 65 and 66 score 0, 1, 1 and 2.\<close>

lemma age_boundaries:
  "getAgeRisk ts (JStr ''39'') = \<lparr>score = 0, hasIssue = False\<rparr>"
  "getAgeRisk ts (JStr ''40'') = \<lparr>score = 1, hasIssue = False\<rparr>"
  "getAgeRisk ts (JStr ''65'') = \<lparr>score = 1, hasIssue = False\<rparr>"
  "getAgeRisk ts (JStr ''66'') = \<lparr>score = 2, hasIssue = False\<rparr>"
  by (simp_all add: age_eval str_eval)


section \<open>Age given as a Number\<close>

lemma ilog10_bounds: "0 < n \<Longrightarrow> 10 ^ ilog10 n \<le> n \<and> n < 10 ^ Suc (ilog10 n)"
proof (induction n rule: ilog10.induct)
  case (1 n)
  show ?case
  proof (cases "n < 10")
    case True
    with "1.prems" show ?thesis by (simp add: ilog10.simps)
  next
    case False
    then have "0 < n div 10" by simp
    with 1 False have ih: "10 ^ ilog10 (n div 10) \<le> n div 10" "n div 10 < 10 ^ Suc (ilog10 (n div 10))"
      by simp_all
    have eq: "ilog10 n = Suc (ilog10 (n div 10))"
      using False by (subst ilog10.simps) simp
    from ih show ?thesis unfolding eq by auto
  qed
qed

lemma ilog10_unique:
  assumes "10 ^ k \<le> n" and "n < 10 ^ Suc k"
  shows "ilog10 n = k"
proof -
  from assms have pos: "0 < n"
    by (metis less_le_trans zero_less_numeral zero_less_power)
  from ilog10_bounds [OF pos] have b: "10 ^ ilog10 n \<le> n" "n < 10 ^ Suc (ilog10 n)"
    by simp_all
  have "(10::nat) ^ k < 10 ^ Suc (ilog10 n)"
    using assms(1) b(2) by linarith
  then have "k < Suc (ilog10 n)"
    by (simp only: power_strict_increasing_iff one_less_numeral_iff semiring_norm)
  moreover have "(10::nat) ^ ilog10 n < 10 ^ Suc k"
    using assms(2) b(1) by linarith
  then have "ilog10 n < Suc k"
    by (simp only: power_strict_increasing_iff one_less_numeral_iff semiring_norm)
  ultimately show ?thesis by simp
qed

lemma decade_nat:
  assumes "10 ^ k \<le> q" and "q < 10 ^ Suc k"
  shows "decade q = int k"
proof -
  have one: "1 \<le> q"
    using assms(1) by (meson one_le_numeral one_le_power order_trans)
  have "(10::int) ^ k \<le> \<lfloor>q\<rfloor>" "\<lfloor>q\<rfloor> < 10 ^ Suc k"
    using assms by (simp_all add: le_floor_iff floor_less_iff)
  moreover have nn: "0 \<le> \<lfloor>q\<rfloor>"
    using one by simp
  ultimately have "int (10 ^ k) \<le> int (nat \<lfloor>q\<rfloor>)" "int (nat \<lfloor>q\<rfloor>) < int (10 ^ Suc k)"
    by simp_all
  then have "10 ^ k \<le> nat \<lfloor>q\<rfloor>" "nat \<lfloor>q\<rfloor> < 10 ^ Suc k"
    by (simp_all only: of_nat_le_iff of_nat_less_iff)
  then have "ilog10 (nat \<lfloor>q\<rfloor>) = k"
    by (rule ilog10_unique)
  with one show ?thesis by (simp add: decade_def)
qed

text \<open>\<open>10^21\<close> and \<open>2 * 10^21\<close> are Numbers: \<open>7629394531250000 * 2^17\<close> and \<open>7629394531250000 * 2^18\<close>.\<close>

lemma to_double_1e21: "to_double 1000000000000000000000 = Fin 1000000000000000000000"
  by (rule to_double_exact [where k = 69 and m = "7629394531250000"]) simp_all

lemma to_double_2e21: "to_double 2000000000000000000000 = Fin 2000000000000000000000"
  by (rule to_double_exact [where k = 70 and m = "7629394531250000"]) simp_all

lemma decade_values: "decade 70 = 1" "decade 40 = 1" "decade 1000000000000000000000 = 21"
  using decade_nat [of 1 70] decade_nat [of 1 40] decade_nat [of 21 "1000000000000000000000"]
  by simp_all

lemma upt_1_18: "[1..<18] = 1 # [2..<18]"
proof -
  have "(1::nat) < 18" by simp
  then have "[1..<18] = 1 # [Suc 1..<18]"
    by (rule upt_conv_Cons)
  then show ?thesis
    by (simp only: Suc_1)
qed

text \<open>The string forms of the Numbers 70 and \<open>10^21\<close>.\<close>

lemma show_positive_70: "show_positive 70 = ''70''"
proof -
  have c: "candidate 70 2 1 = Some 7"
    by (simp add: candidate_def floor_rat_numeral to_double_values Let_def)
  have f: "first_candidate 70 2 [1..<18] = Some (7, 1)"
    by (simp only: upt_1_18 first_candidate.simps c option.case)
  have d: "decade 70 + 1 = 2"
    by (simp add: decade_values)
  show ?thesis
    unfolding show_positive_def Let_def d f by (simp add: digits.simps)
qed

lemma show_positive_1e21: "show_positive 1000000000000000000000 = ''1e+21''"
proof -
  have c: "candidate 1000000000000000000000 22 1 = Some 1"
    by (simp add: candidate_def to_double_1e21 to_double_2e21 Let_def)
  have f: "first_candidate 1000000000000000000000 22 [1..<18] = Some (1, 1)"
    by (simp only: upt_1_18 first_candidate.simps c option.case)
  have d: "decade 1000000000000000000000 + 1 = 22"
    by (simp add: decade_values)
  show ?thesis
    unfolding show_positive_def Let_def d f by (simp add: digits.simps)
qed

text \<open>
  C8. \<open>getAgeRisk\<close> is not monotonic non-decreasing over the ages it accepts. An age given
  as a Number reaches \<open>parseInt\<close> through its string form, which from \<open>10^21\<close> on is in
  exponent notation: \<open>10^21\<close> is a Number, its string form is \<open>1e+21\<close>, and \<open>parseInt\<close>
  reads that as 1. So the Number \<open>10^21\<close> is scored 0 with the issue flag clear, while
  the smaller Number 70 is scored 2, and so is the age \<open>10^21\<close> written as a string of
  digits. (For ages written as strings of digits the score is non-decreasing in the age,
  and the ages 39, 40, 65 and 66 score 0, 1, 1 and 2, as shown above.)
\<close>

theorem age_risk_falls_at_1e21:
  "to_double (10 ^ 21) = Fin (10 ^ 21) \<and>
   numberToString (Fin (10 ^ 21)) = ''1e+21'' \<and>
   parseInt numberToString (JNum (Fin (10 ^ 21))) = Some 1 \<and>
   getAgeRisk numberToString (JNum (Fin 70)) = \<lparr>score = 2, hasIssue = False\<rparr> \<and>
   getAgeRisk numberToString (JNum (Fin (10 ^ 21))) = \<lparr>score = 0, hasIssue = False\<rparr> \<and>
   getAgeRisk numberToString (JStr ''1000000000000000000000'') = \<lparr>score = 2, hasIssue = False\<rparr> \<and>
   (70::rat) \<le> 10 ^ 21 \<and>
   \<not> score (getAgeRisk numberToString (JNum (Fin 70)))
       \<le> score (getAgeRisk numberToString (JNum (Fin (10 ^ 21))))"
  by (simp add: age_eval str_eval show_positive_70 show_positive_1e21 to_double_1e21)


section \<open>One request: the retry budgets\<close>

lemmas req_eval = makeRequest_def makeRequest_loop.simps loop_condition_def handle_outcome_def
  maxRateLimitRetries_def Let_def

lemma handle_Return: "handle_outcome m s out = Return d \<Longrightarrow> out = Resolved d"
  by (auto simp: handle_outcome_def Let_def split: outcome.splits if_splits)

lemma handle_Throw: "handle_outcome m s out = Throw e s1 \<Longrightarrow> \<exists>st. out = Rejected st"
  by (auto simp: handle_outcome_def Let_def split: outcome.splits if_splits)

lemma handle_Continue:
  assumes "handle_outcome m s out = Continue s1 ms"
  shows "(rate_limited out \<and> attempt s1 = attempt s \<and> rateLimitAttempts s1 = rateLimitAttempts s + 1 \<and>
            rateLimitAttempts s1 \<le> maxRateLimitRetries) \<or>
         (\<not> rate_limited out \<and> attempt s1 = attempt s + 1 \<and> attempt s < m \<and> rateLimitAttempts s1 = 0)"
    and "\<exists>st. out = Rejected st"
  using assms
  by (auto simp: handle_outcome_def rate_limited_def Let_def split: outcome.splits if_splits)

lemma count_outcomes_step:
  "i < j \<Longrightarrow> count_outcomes P net i j = (if P (net i) then 1 else 0) + count_outcomes P net (Suc i) j"
  by (simp add: count_outcomes_def upt_rec [of i j])

lemma count_outcomes_empty: "j \<le> i \<Longrightarrow> count_outcomes P net i j = 0"
  by (simp add: count_outcomes_def)

lemma loop_budgets:
  assumes "makeRequest_loop m net i s = (r, j, s')"
    and "attempt s \<le> m" and "rateLimitAttempts s \<le> maxRateLimitRetries"
  shows "i < j \<and>
         count_outcomes (\<lambda>out. \<not> rate_limited out) net i j \<le> m + 1 - attempt s \<and>
         count_outcomes rate_limited net i (j - 1)
           \<le> maxRateLimitRetries * (m - attempt s) + (maxRateLimitRetries - rateLimitAttempts s)"
  using assms
proof (induction m net i s rule: makeRequest_loop.induct)
  case (1 m net i s)
  have lc: "loop_condition m s"
    using "1.prems"(2) by (simp add: loop_condition_def)
  show ?case
  proof (cases "handle_outcome m s (net i)")
    case (Return d)
    with lc "1.prems"(1) have j: "j = i + 1"
      by (simp add: makeRequest_loop.simps)
    show ?thesis
      using "1.prems"(2) by (auto simp: j count_outcomes_def)
  next
    case (Throw e s1)
    with lc "1.prems"(1) have j: "j = i + 1"
      by (simp add: makeRequest_loop.simps)
    show ?thesis
      using "1.prems"(2) by (auto simp: j count_outcomes_def)
  next
    case (Continue s1 ms)
    with lc "1.prems"(1) have rec: "makeRequest_loop m net (i + 1) s1 = (r, j, s')"
      by (simp add: makeRequest_loop.simps)
    note hc = handle_Continue(1) [OF Continue]
    have a1: "attempt s1 \<le> m" and r1: "rateLimitAttempts s1 \<le> maxRateLimitRetries"
      using hc "1.prems"(2) by auto
    note ih = "1.IH" [OF lc Continue rec a1 r1]
    from ih have ij: "i + 1 < j" by simp
    then have c1: "count_outcomes (\<lambda>out. \<not> rate_limited out) net i j =
        (if \<not> rate_limited (net i) then 1 else 0) + count_outcomes (\<lambda>out. \<not> rate_limited out) net (i + 1) j"
      using count_outcomes_step [of i j "\<lambda>out. \<not> rate_limited out" net] by simp
    from ij have c2: "count_outcomes rate_limited net i (j - 1) =
        (if rate_limited (net i) then 1 else 0) + count_outcomes rate_limited net (i + 1) (j - 1)"
      using count_outcomes_step [of i "j - 1" rate_limited net] by simp
    from hc show ?thesis
    proof
      assume h: "rate_limited (net i) \<and> attempt s1 = attempt s \<and>
        rateLimitAttempts s1 = rateLimitAttempts s + 1 \<and> rateLimitAttempts s1 \<le> maxRateLimitRetries"
      with ih ij show ?thesis
        unfolding c1 c2 by auto
    next
      assume h: "\<not> rate_limited (net i) \<and> attempt s1 = attempt s + 1 \<and> attempt s < m \<and>
        rateLimitAttempts s1 = 0"
      then have "maxRateLimitRetries * (m - attempt s) =
          maxRateLimitRetries * (m - attempt s1) + maxRateLimitRetries"
        by (metis Suc_diff_Suc add.commute add_Suc_right mult_Suc_right plus_1_eq_Suc Suc_eq_plus1 diff_Suc_eq_diff_pred Suc_pred zero_less_diff)
      with h ih ij show ?thesis
        unfolding c1 c2 by auto
    qed
  qed
qed

lemma loop_no_long_burst:
  assumes "makeRequest_loop m net i s = (r, j, s')"
    and "attempt s \<le> m" and "rateLimitAttempts s \<le> maxRateLimitRetries"
  shows "\<forall>k. i - rateLimitAttempts s \<le> k \<and> k + (maxRateLimitRetries + 1) \<le> j - 1 \<longrightarrow>
           (\<exists>n \<le> maxRateLimitRetries. \<not> rate_limited (net (k + n)))"
  using assms
proof (induction m net i s rule: makeRequest_loop.induct)
  case (1 m net i s)
  have lc: "loop_condition m s"
    using "1.prems"(2) by (simp add: loop_condition_def)
  show ?case
  proof (cases "handle_outcome m s (net i)")
    case (Return d)
    with lc "1.prems"(1) have j: "j = i + 1"
      by (simp add: makeRequest_loop.simps)
    show ?thesis
      using "1.prems"(3) by (auto simp: j)
  next
    case (Throw e s1)
    with lc "1.prems"(1) have j: "j = i + 1"
      by (simp add: makeRequest_loop.simps)
    show ?thesis
      using "1.prems"(3) by (auto simp: j)
  next
    case (Continue s1 ms)
    with lc "1.prems"(1) have rec: "makeRequest_loop m net (i + 1) s1 = (r, j, s')"
      by (simp add: makeRequest_loop.simps)
    note hc = handle_Continue(1) [OF Continue]
    have a1: "attempt s1 \<le> m" and r1: "rateLimitAttempts s1 \<le> maxRateLimitRetries"
      using hc "1.prems"(2) by auto
    note ih = "1.IH" [OF lc Continue rec a1 r1]
    from hc show ?thesis
    proof
      assume h: "rate_limited (net i) \<and> attempt s1 = attempt s \<and>
        rateLimitAttempts s1 = rateLimitAttempts s + 1 \<and> rateLimitAttempts s1 \<le> maxRateLimitRetries"
      then have "i + 1 - rateLimitAttempts s1 = i - rateLimitAttempts s"
        by simp
      with ih show ?thesis
        by simp
    next
      assume h: "\<not> rate_limited (net i) \<and> attempt s1 = attempt s + 1 \<and> attempt s < m \<and>
        rateLimitAttempts s1 = 0"
      show ?thesis
      proof (intro allI impI)
        fix k
        assume k: "i - rateLimitAttempts s \<le> k \<and> k + (maxRateLimitRetries + 1) \<le> j - 1"
        show "\<exists>n \<le> maxRateLimitRetries. \<not> rate_limited (net (k + n))"
        proof (cases "k \<le> i")
          case True
          with k "1.prems"(3) have "i - k \<le> maxRateLimitRetries" and "k + (i - k) = i"
            by auto
          with h show ?thesis
            by metis
        next
          case False
          with h have "i + 1 - rateLimitAttempts s1 \<le> k"
            by simp
          with ih k show ?thesis
            by blast
        qed
      qed
    qed
  qed
qed

lemma burst_then_resolved:
  assumes "\<forall>k < n. net (i + k) = Rejected (Some 429)" and "net (i + n) = Resolved d"
    and "rateLimitAttempts s + n \<le> maxRateLimitRetries" and "attempt s \<le> m"
  shows "makeRequest_loop m net i s =
           (Inr d, i + n + 1, s\<lparr>rateLimitAttempts := rateLimitAttempts s + n\<rparr>)"
  using assms
proof (induction n arbitrary: i s)
  case 0
  then show ?case
    by (simp add: makeRequest_loop.simps loop_condition_def handle_outcome_def)
next
  case (Suc n)
  from Suc.prems(1) have first: "net i = Rejected (Some 429)"
    by (metis add.right_neutral zero_less_Suc)
  let ?s1 = "s\<lparr>rateLimitAttempts := rateLimitAttempts s + 1\<rparr>"
  have step: "makeRequest_loop m net i s = makeRequest_loop m net (i + 1) ?s1"
    using Suc.prems(3,4) first
    by (subst makeRequest_loop.simps) (simp add: loop_condition_def handle_outcome_def Let_def)
  have "\<forall>k < n. net (i + 1 + k) = Rejected (Some 429)"
    using Suc.prems(1) by (metis Suc_less_eq add_Suc_right add_Suc_shift plus_1_eq_Suc add.commute Suc_eq_plus1 add.assoc)
  moreover have "net (i + 1 + n) = Resolved d"
    using Suc.prems(2) by (simp add: add.commute add.left_commute)
  moreover have "rateLimitAttempts ?s1 + n \<le> maxRateLimitRetries" "attempt ?s1 \<le> m"
    using Suc.prems(3,4) by simp_all
  ultimately have "makeRequest_loop m net (i + 1) ?s1 =
      (Inr d, i + 1 + n + 1, ?s1\<lparr>rateLimitAttempts := rateLimitAttempts ?s1 + n\<rparr>)"
    by (rule Suc.IH)
  with step show ?case
    by simp
qed

text \<open>
  C2 as stated fails: a 404 response on the first of three attempts is not retried. The
  request fails at once, although the next call would have succeeded.
\<close>

theorem other_status_not_retried_counterexample:
  "handle_outcome 3 \<lparr>attempt = 1, rateLimitAttempts = 0\<rparr> (not_found_then_success 0) =
     Throw (RequestError (Some 404)) \<lparr>attempt = 1, rateLimitAttempts = 0\<rparr> \<and>
   \<not> (3::nat) \<le> 1 \<and>
   makeRequest 3 not_found_then_success 0 =
     (Inl (RequestError (Some 404)), 1, \<lparr>attempt = 1, rateLimitAttempts = 0\<rparr>)"
  by (simp add: req_eval not_found_then_success_def)

text \<open>
  C2, amended. In a pass of the loop of \<open>makeRequest\<close> whose outcome is an error that is
  neither a 429 nor a 500, 502 or 503: if \<open>attempt >= maxRetries\<close> the request fails
  terminally; otherwise, when the error has no status (a network error) or the falsy
  status 0, \<open>attempt\<close> is incremented and the request is retried at once; otherwise (any
  other HTTP status) the request fails terminally at once. The rate-limit counter is
  reset to 0 in each case.
\<close>

theorem other_error_outcomes:
  assumes "net i = Rejected status"
    and "status \<noteq> Some 429" and "status \<noteq> Some 500" and "status \<noteq> Some 502"
    and "status \<noteq> Some 503"
    and "loop_condition maxRetries s"
  shows "makeRequest_loop maxRetries net i s =
           (if attempt s \<ge> maxRetries
            then (Inl (RequestError status), i + 1, s\<lparr>rateLimitAttempts := 0\<rparr>)
            else if status = None \<or> status = Some 0
            then makeRequest_loop maxRetries net (i + 1)
                   (s\<lparr>rateLimitAttempts := 0, attempt := attempt s + 1\<rparr>)
            else (Inl (RequestError status), i + 1, s\<lparr>rateLimitAttempts := 0\<rparr>))"
  using assms
  by (subst makeRequest_loop.simps) (auto simp: handle_outcome_def Let_def)

theorem other_error_outcomes_witness:
  "loop_condition 3 \<lparr>attempt = 1, rateLimitAttempts = 0\<rparr> \<and>
   loop_condition 3 \<lparr>attempt = 2, rateLimitAttempts = 0\<rparr> \<and>
   loop_condition 3 \<lparr>attempt = 3, rateLimitAttempts = 0\<rparr> \<and>
   makeRequest 3 (\<lambda>i. Rejected None :: nat outcome) 0 =
     (Inl (RequestError None), 3, \<lparr>attempt = 3, rateLimitAttempts = 0\<rparr>) \<and>
   makeRequest 3 (\<lambda>i. Rejected (Some 404) :: nat outcome) 0 =
     (Inl (RequestError (Some 404)), 1, \<lparr>attempt = 1, rateLimitAttempts = 0\<rparr>)"
proof -
  have a: "loop_condition 3 \<lparr>attempt = 1, rateLimitAttempts = 0\<rparr>"
    and b: "loop_condition 3 \<lparr>attempt = 2, rateLimitAttempts = 0\<rparr>"
    and c: "loop_condition 3 \<lparr>attempt = 3, rateLimitAttempts = 0\<rparr>"
    by (simp_all add: loop_condition_def)
  have 1: "makeRequest_loop 3 (\<lambda>i. Rejected None :: nat outcome) 0 \<lparr>attempt = 1, rateLimitAttempts = 0\<rparr> =
      makeRequest_loop 3 (\<lambda>i. Rejected None) 1 \<lparr>attempt = 2, rateLimitAttempts = 0\<rparr>"
    using a other_error_outcomes [of "\<lambda>i. Rejected None :: nat outcome" 0 None 3
        "\<lparr>attempt = 1, rateLimitAttempts = 0\<rparr>"]
    by (simp add: numeral_2_eq_2)
  have 2: "makeRequest_loop 3 (\<lambda>i. Rejected None :: nat outcome) 1 \<lparr>attempt = 2, rateLimitAttempts = 0\<rparr> =
      makeRequest_loop 3 (\<lambda>i. Rejected None) 2 \<lparr>attempt = 3, rateLimitAttempts = 0\<rparr>"
    using b other_error_outcomes [of "\<lambda>i. Rejected None :: nat outcome" 1 None 3
        "\<lparr>attempt = 2, rateLimitAttempts = 0\<rparr>"]
    by (simp add: numeral_2_eq_2 numeral_3_eq_3)
  have 3: "makeRequest_loop 3 (\<lambda>i. Rejected None :: nat outcome) 2 \<lparr>attempt = 3, rateLimitAttempts = 0\<rparr> =
      (Inl (RequestError None), 3, \<lparr>attempt = 3, rateLimitAttempts = 0\<rparr>)"
    using c other_error_outcomes [of "\<lambda>i. Rejected None :: nat outcome" 2 None 3
        "\<lparr>attempt = 3, rateLimitAttempts = 0\<rparr>"]
    by simp
  have 4: "makeRequest_loop 3 (\<lambda>i. Rejected (Some 404) :: nat outcome) 0 \<lparr>attempt = 1, rateLimitAttempts = 0\<rparr> =
      (Inl (RequestError (Some 404)), 1, \<lparr>attempt = 1, rateLimitAttempts = 0\<rparr>)"
    using a other_error_outcomes [of "\<lambda>i. Rejected (Some 404) :: nat outcome" 0 "Some 404" 3
        "\<lparr>attempt = 1, rateLimitAttempts = 0\<rparr>"]
    by simp
  have 5: "makeRequest 3 (\<lambda>i. Rejected None :: nat outcome) 0 =
      (Inl (RequestError None), 3, \<lparr>attempt = 3, rateLimitAttempts = 0\<rparr>)"
    by (simp only: makeRequest_def 1 2 3)
  have 6: "makeRequest 3 (\<lambda>i. Rejected (Some 404) :: nat outcome) 0 =
      (Inl (RequestError (Some 404)), 1, \<lparr>attempt = 1, rateLimitAttempts = 0\<rparr>)"
    by (simp only: makeRequest_def 4)
  from a b c 5 6 show ?thesis
    by blast
qed

text \<open>
  C4 as stated fails: after eight 429 responses, a 500 and a ninth 429, the request
  succeeds. Of its ten retries nine followed a 429, more than \<open>maxRateLimitRetries\<close>.
\<close>

theorem rate_limit_budget_counterexample:
  "makeRequest 3 burst_then_success 0 = (Inr 0, 11, \<lparr>attempt = 2, rateLimitAttempts = 1\<rparr>) \<and>
   count_outcomes rate_limited burst_then_success 0 10 = 9 \<and>
   \<not> 9 \<le> maxRateLimitRetries"
proof -
  have "makeRequest 3 burst_then_success 0 = (Inr 0, 11, \<lparr>attempt = 2, rateLimitAttempts = 1\<rparr>)"
    by (simp add: req_eval burst_then_success_def)
  moreover have "count_outcomes rate_limited burst_then_success 0 10 = 9"
    by (simp add: count_outcomes_def rate_limited_def burst_then_success_def upt_rec)
  ultimately show ?thesis
    by (simp add: maxRateLimitRetries_def)
qed

text \<open>
  C4, amended. In one call of \<open>makeRequest\<close>, at most \<open>maxRetries\<close> of the outcomes read
  are not 429 responses; at most \<open>maxRateLimitRetries\<close> 429 responses in a row are
  retried, and, the rate-limit counter being reset by every other error, at most
  \<open>maxRateLimitRetries * maxRetries\<close> in all; and up to \<open>maxRateLimitRetries\<close> 429 responses
  followed by a success give that success with \<open>attempt\<close> still 1.
\<close>

theorem retry_budgets:
  "(makeRequest maxRetries net i = (r, j, s') \<longrightarrow>
      count_outcomes (\<lambda>out. \<not> rate_limited out) net i j \<le> maxRetries \<and>
      count_outcomes rate_limited net i (j - 1) \<le> maxRateLimitRetries * maxRetries \<and>
      (\<forall>k. i \<le> k \<and> k + (maxRateLimitRetries + 1) \<le> j - 1 \<longrightarrow>
         (\<exists>n \<le> maxRateLimitRetries. \<not> rate_limited (net (k + n))))) \<and>
   (1 \<le> maxRetries \<and> n \<le> maxRateLimitRetries \<and>
    (\<forall>k < n. net (i + k) = Rejected (Some 429)) \<and> net (i + n) = Resolved d \<longrightarrow>
      makeRequest maxRetries net i = (Inr d, i + n + 1, \<lparr>attempt = 1, rateLimitAttempts = n\<rparr>))"
proof -
  have budgets: "makeRequest maxRetries net i = (r, j, s') \<longrightarrow>
      count_outcomes (\<lambda>out. \<not> rate_limited out) net i j \<le> maxRetries \<and>
      count_outcomes rate_limited net i (j - 1) \<le> maxRateLimitRetries * maxRetries \<and>
      (\<forall>k. i \<le> k \<and> k + (maxRateLimitRetries + 1) \<le> j - 1 \<longrightarrow>
         (\<exists>n \<le> maxRateLimitRetries. \<not> rate_limited (net (k + n))))"
  proof
    assume run: "makeRequest maxRetries net i = (r, j, s')"
    show "count_outcomes (\<lambda>out. \<not> rate_limited out) net i j \<le> maxRetries \<and>
        count_outcomes rate_limited net i (j - 1) \<le> maxRateLimitRetries * maxRetries \<and>
        (\<forall>k. i \<le> k \<and> k + (maxRateLimitRetries + 1) \<le> j - 1 \<longrightarrow>
           (\<exists>n \<le> maxRateLimitRetries. \<not> rate_limited (net (k + n))))"
    proof (cases "1 \<le> maxRetries")
      case True
      let ?s = "\<lparr>attempt = 1, rateLimitAttempts = 0\<rparr>"
      from run have l: "makeRequest_loop maxRetries net i ?s = (r, j, s')"
        by (simp add: makeRequest_def)
      have a: "attempt ?s \<le> maxRetries" and b: "rateLimitAttempts ?s \<le> maxRateLimitRetries"
        using True by simp_all
      have m: "maxRateLimitRetries * (maxRetries - 1) + maxRateLimitRetries =
          maxRateLimitRetries * maxRetries"
        using True by (cases maxRetries) simp_all
      from loop_budgets [OF l a b]
      have c1: "count_outcomes (\<lambda>out. \<not> rate_limited out) net i j \<le> maxRetries + 1 - 1"
        and c2: "count_outcomes rate_limited net i (j - 1)
                   \<le> maxRateLimitRetries * (maxRetries - 1) + (maxRateLimitRetries - 0)"
        by simp_all
      from c1 have d1: "count_outcomes (\<lambda>out. \<not> rate_limited out) net i j \<le> maxRetries"
        by simp
      from c2 m have d2: "count_outcomes rate_limited net i (j - 1) \<le> maxRateLimitRetries * maxRetries"
        by simp
      from loop_no_long_burst [OF l a b]
      have d3: "\<forall>k. i \<le> k \<and> k + (maxRateLimitRetries + 1) \<le> j - 1 \<longrightarrow>
           (\<exists>n \<le> maxRateLimitRetries. \<not> rate_limited (net (k + n)))"
        by simp
      from d1 d2 d3 show ?thesis
        by blast
    next
      case False
      then have "\<not> loop_condition maxRetries \<lparr>attempt = 1, rateLimitAttempts = 0\<rparr>"
        by (simp add: loop_condition_def)
      with run have "j = i"
        by (simp add: makeRequest_def makeRequest_loop.simps)
      then show ?thesis
        by (auto simp: count_outcomes_def)
    qed
  qed
  have burst: "1 \<le> maxRetries \<and> n \<le> maxRateLimitRetries \<and>
      (\<forall>k < n. net (i + k) = Rejected (Some 429)) \<and> net (i + n) = Resolved d \<longrightarrow>
      makeRequest maxRetries net i = (Inr d, i + n + 1, \<lparr>attempt = 1, rateLimitAttempts = n\<rparr>)"
  proof
    assume h: "1 \<le> maxRetries \<and> n \<le> maxRateLimitRetries \<and>
      (\<forall>k < n. net (i + k) = Rejected (Some 429)) \<and> net (i + n) = Resolved d"
    let ?s = "\<lparr>attempt = 1, rateLimitAttempts = 0\<rparr>"
    have "makeRequest_loop maxRetries net i ?s =
        (Inr d, i + n + 1, ?s\<lparr>rateLimitAttempts := rateLimitAttempts ?s + n\<rparr>)"
      using h by (intro burst_then_resolved) simp_all
    then show "makeRequest maxRetries net i =
        (Inr d, i + n + 1, \<lparr>attempt = 1, rateLimitAttempts = n\<rparr>)"
      by (simp add: makeRequest_def)
  qed
  from budgets burst show ?thesis
    by (rule conjI)
qed

theorem retry_budgets_witness:
  "makeRequest 3 burst_then_success 0 = (Inr 0, 11, \<lparr>attempt = 2, rateLimitAttempts = 1\<rparr>) \<and>
   count_outcomes (\<lambda>out. \<not> rate_limited out) burst_then_success 0 11 \<le> 3 \<and>
   count_outcomes rate_limited burst_then_success 0 (11 - 1) \<le> maxRateLimitRetries * 3 \<and>
   (0::nat) \<le> 1 \<and> 1 + (maxRateLimitRetries + 1) \<le> (11::nat) - 1 \<and>
   (\<exists>n \<le> maxRateLimitRetries. \<not> rate_limited (burst_then_success (1 + n))) \<and>
   (1::nat) \<le> 3 \<and> 1 \<le> maxRateLimitRetries \<and>
   limited_then_success (0 + 0) = Rejected (Some 429) \<and>
   limited_then_success (0 + 1) = Resolved 0 \<and>
   makeRequest 3 limited_then_success 0 = (Inr 0, 0 + 1 + 1, \<lparr>attempt = 1, rateLimitAttempts = 1\<rparr>)"
proof -
  have run: "makeRequest 3 burst_then_success 0 = (Inr 0, 11, \<lparr>attempt = 2, rateLimitAttempts = 1\<rparr>)"
    by (simp add: req_eval burst_then_success_def)
  have k: "(0::nat) \<le> 1 \<and> 1 + (maxRateLimitRetries + 1) \<le> (11::nat) - 1"
    by (simp add: maxRateLimitRetries_def)
  have h: "(1::nat) \<le> 3 \<and> 1 \<le> maxRateLimitRetries \<and>
      (\<forall>k < 1. limited_then_success (0 + k) = Rejected (Some 429)) \<and>
      limited_then_success (0 + 1) = Resolved 0"
    by (simp add: maxRateLimitRetries_def limited_then_success_def)
  note t = retry_budgets [of 3 burst_then_success 0 "Inr 0" 11
      "\<lparr>attempt = 2, rateLimitAttempts = 1\<rparr>" 1 0]
  note u = retry_budgets [of 3 limited_then_success 0 "Inr 0" 2
      "\<lparr>attempt = 1, rateLimitAttempts = 1\<rparr>" 1 0]
  from t run have a: "count_outcomes (\<lambda>out. \<not> rate_limited out) burst_then_success 0 11 \<le> 3"
    and b: "count_outcomes rate_limited burst_then_success 0 (11 - 1) \<le> maxRateLimitRetries * 3"
    and c: "\<forall>k. 0 \<le> k \<and> k + (maxRateLimitRetries + 1) \<le> 11 - 1 \<longrightarrow>
         (\<exists>n \<le> maxRateLimitRetries. \<not> rate_limited (burst_then_success (k + n)))"
    by blast+
  from c k have d: "\<exists>n \<le> maxRateLimitRetries. \<not> rate_limited (burst_then_success (1 + n))"
    by blast
  have h0: "(1::nat) \<le> 3 \<and> 1 \<le> maxRateLimitRetries \<and>
      limited_then_success (0 + 0) = Rejected (Some 429) \<and>
      limited_then_success (0 + 1) = Resolved 0"
    using h by simp
  from u h have e: "makeRequest 3 limited_then_success 0 =
      (Inr 0, 0 + 1 + 1, \<lparr>attempt = 1, rateLimitAttempts = 1\<rparr>)"
    by blast
  from run a b k d h0 e show ?thesis
    by blast
qed


section \<open>Fetching all pages\<close>

lemma loop_records:
  assumes "makeRequest_loop m net i s = (r, j, s')" and "attempt s \<le> m"
  shows "i < j \<and> concat (map (\<lambda>k. records_of (net k)) [i..<j]) =
           (case r of Inl e \<Rightarrow> [] | Inr d \<Rightarrow> records_of (Resolved d))"
  using assms
proof (induction m net i s rule: makeRequest_loop.induct)
  case (1 m net i s)
  have lc: "loop_condition m s"
    using "1.prems"(2) by (simp add: loop_condition_def)
  show ?case
  proof (cases "handle_outcome m s (net i)")
    case (Return d)
    with lc "1.prems"(1) have j: "j = i + 1" and r: "r = Inr d"
      by (simp_all add: makeRequest_loop.simps)
    from handle_Return [OF Return] show ?thesis
      by (simp add: j r)
  next
    case (Throw e s1)
    with lc "1.prems"(1) have j: "j = i + 1" and r: "r = Inl e"
      by (simp_all add: makeRequest_loop.simps)
    from handle_Throw [OF Throw] show ?thesis
      by (auto simp: j r records_of_def)
  next
    case (Continue s1 ms)
    with lc "1.prems"(1) have rec: "makeRequest_loop m net (i + 1) s1 = (r, j, s')"
      by (simp add: makeRequest_loop.simps)
    have a1: "attempt s1 \<le> m"
      using handle_Continue(1) [OF Continue] "1.prems"(2) by auto
    note ih = "1.IH" [OF lc Continue rec a1]
    from ih have ij: "i < j" by simp
    from handle_Continue(2) [OF Continue] have "records_of (net i) = []"
      by (auto simp: records_of_def)
    with ih show ?thesis
      by (simp add: upt_rec [of i j] ij)
  qed
qed

lemma fetch_page_fetched:
  assumes "fetched net st"
  shows "fetched net (fetch_page net st)"
proof -
  obtain r j s' where run: "makeRequest 3 net (cursor st) = (r, j, s')"
    by (cases "makeRequest 3 net (cursor st)") auto
  then have l: "makeRequest_loop 3 net (cursor st) \<lparr>attempt = 1, rateLimitAttempts = 0\<rparr> = (r, j, s')"
    by (simp add: makeRequest_def)
  from loop_records [OF l] have ij: "cursor st < j"
    and rec: "concat (map (\<lambda>k. records_of (net k)) [cursor st..<j]) =
           (case r of Inl e \<Rightarrow> [] | Inr d \<Rightarrow> records_of (Resolved d))"
    by simp_all
  have split: "[0..<j] = [0..<cursor st] @ [cursor st..<j]"
    using ij by (metis le_add_diff_inverse less_imp_le_nat upt_add_eq_append zero_le)
  have all: "concat (map (\<lambda>k. records_of (net k)) [0..<j]) =
      allPatients st @ (case r of Inl e \<Rightarrow> [] | Inr d \<Rightarrow> records_of (Resolved d))"
    using assms by (simp add: split rec fetched_def)
  show ?thesis
  proof (cases r)
    case (Inl e)
    with run all show ?thesis
      by (simp add: fetch_page_def fetched_def Let_def)
  next
    case (Inr d)
    with run all show ?thesis
      by (cases d; cases "extract_patients d")
        (auto simp: fetch_page_def fetched_def Let_def records_of_def)
  qed
qed

lemma fetch_loop_fetched:
  "fetched net st \<Longrightarrow> fetch_loop fuel net st = Some st' \<Longrightarrow> fetched net st'"
proof (induction fuel arbitrary: st)
  case 0
  then show ?case
    by (simp add: fetch_loop.simps split: if_splits)
next
  case (Suc n)
  show ?case
  proof (cases "hasMore st")
    case False
    with Suc.prems show ?thesis
      by (simp add: fetch_loop.simps)
  next
    case True
    with Suc.prems(2) have "fetch_loop n net (fetch_page net st) = Some st'"
      by (simp add: fetch_loop.simps)
    with Suc.IH [OF fetch_page_fetched [OF Suc.prems(1)]] show ?thesis
      by simp
  qed
qed

lemma fetch_returns_concatenation:
  assumes "fetch_loop fuel net fetch_start = Some st"
  shows "allPatients st = concat (map (\<lambda>k. records_of (net k)) [0..<cursor st])"
proof -
  have "fetched net (fetch_start :: 'a fetch_state)"
    by (simp add: fetched_def fetch_start_def)
  from fetch_loop_fetched [OF this assms] show ?thesis
    by (simp add: fetched_def)
qed

lemma fetch_loop_running:
  assumes "\<And>st. hasMore st \<Longrightarrow> hasMore (fetch_page net st)"
  shows "hasMore st \<Longrightarrow> fetch_loop fuel net st = None"
proof (induction fuel arbitrary: st)
  case 0
  then show ?case by (simp add: fetch_loop.simps)
next
  case (Suc n)
  from assms [OF Suc.prems] have "fetch_loop n net (fetch_page net st) = None"
    by (rule Suc.IH)
  with Suc.prems show ?case
    by (simp add: fetch_loop.simps)
qed

lemma makeRequest_resolved:
  "net i = Resolved d \<Longrightarrow>
     makeRequest 3 net i = (Inr d, i + 1, \<lparr>attempt = 1, rateLimitAttempts = 0\<rparr>)"
  by (simp add: makeRequest_def makeRequest_loop.simps loop_condition_def handle_outcome_def)

lemma fetch_page_full:
  "fetch_page full_pages st =
     st\<lparr>requested := requested st @ [page st], allPatients := allPatients st @ [1, 2, 3, 4, 5],
        hasMore := True, page := page st + 1, cursor := cursor st + 1\<rparr>"
  by (simp add: fetch_page_def makeRequest_resolved [of full_pages _ "Bare [1, 2, 3, 4, 5]"]
        full_pages_def Let_def)

lemma fetch_page_empty:
  "fetch_page empty_bodies st =
     st\<lparr>requested := requested st @ [page st], page := page st + 1, cursor := cursor st + 1\<rparr>"
  by (simp add: fetch_page_def makeRequest_resolved [of empty_bodies _ Falsy]
        empty_bodies_def Let_def)

lemma full_pages_passes:
  "(fetch_page full_pages ^^ n) fetch_start =
     \<lparr>allPatients = concat (replicate n [1, 2, 3, 4, 5]), page = n + 1, hasMore = True,
      cursor = n, requested = [1..<n + 1]\<rparr>"
proof (induction n)
  case 0
  show ?case by (simp add: fetch_start_def)
next
  case (Suc n)
  have "concat (replicate n [1, 2, 3, 4, 5::nat]) @ [1, 2, 3, 4, 5] =
      [1, 2, 3, 4, 5] @ concat (replicate n [1, 2, 3, 4, 5])"
    by (induction n) simp_all
  with Suc show ?case
    by (simp add: fetch_page_full)
qed

lemma loop_last:
  assumes "makeRequest_loop m net i s = (r, j, s')" and "attempt s \<le> m"
  shows "i < j \<and> (\<forall>k. i \<le> k \<and> k < j - 1 \<longrightarrow> (\<exists>st. net k = Rejected st)) \<and>
         (case r of Inr d \<Rightarrow> net (j - 1) = Resolved d | Inl e \<Rightarrow> \<exists>st. net (j - 1) = Rejected st)"
  using assms
proof (induction m net i s rule: makeRequest_loop.induct)
  case (1 m net i s)
  have lc: "loop_condition m s"
    using "1.prems"(2) by (simp add: loop_condition_def)
  show ?case
  proof (cases "handle_outcome m s (net i)")
    case (Return d)
    with lc "1.prems"(1) have j: "j = i + 1" and r: "r = Inr d"
      by (simp_all add: makeRequest_loop.simps)
    from handle_Return [OF Return] show ?thesis
      by (auto simp: j r)
  next
    case (Throw e s1)
    with lc "1.prems"(1) have j: "j = i + 1" and r: "r = Inl e"
      by (simp_all add: makeRequest_loop.simps)
    from handle_Throw [OF Throw] show ?thesis
      by (auto simp: j r)
  next
    case (Continue s1 ms)
    with lc "1.prems"(1) have rec: "makeRequest_loop m net (i + 1) s1 = (r, j, s')"
      by (simp add: makeRequest_loop.simps)
    have a1: "attempt s1 \<le> m"
      using handle_Continue(1) [OF Continue] "1.prems"(2) by auto
    note ih = "1.IH" [OF lc Continue rec a1]
    from ih have ij: "i < j" by simp
    have "\<exists>st. net k = Rejected st" if "i \<le> k \<and> k < j - 1" for k
    proof (cases "k = i")
      case True
      with handle_Continue(2) [OF Continue] show ?thesis by simp
    next
      case False
      with that have "i + 1 \<le> k \<and> k < j - 1" by simp
      with ih show ?thesis by blast
    qed
    with ih ij show ?thesis
      by blast
  qed
qed

lemma cursor_fetch_page:
  "makeRequest 3 net (cursor st) = (r, j, s') \<Longrightarrow> cursor (fetch_page net st) = j"
  by (cases r) (auto simp: fetch_page_def Let_def split: option.splits)

lemma fetch_page_last:
  assumes "makeRequest 3 net (cursor st) = (Inr d, j, s')" and "last_page d"
  shows "\<not> hasMore (fetch_page net st)"
  using assms by (auto simp: fetch_page_def last_page_def Let_def split: option.splits)

lemma fetch_loop_returns:
  assumes "net n = Resolved d" and "last_page d"
  shows "cursor st \<le> n \<Longrightarrow> \<exists>fuel st'. fetch_loop fuel net st = Some st'"
proof (induction "n - cursor st" arbitrary: st rule: less_induct)
  case less
  show ?case
  proof (cases "hasMore st")
    case False
    then have "fetch_loop 0 net st = Some st"
      by (simp add: fetch_loop.simps)
    then show ?thesis by blast
  next
    case True
    obtain r j s' where run: "makeRequest 3 net (cursor st) = (r, j, s')"
      by (cases "makeRequest 3 net (cursor st)") auto
    then have l: "makeRequest_loop 3 net (cursor st) \<lparr>attempt = 1, rateLimitAttempts = 0\<rparr> = (r, j, s')"
      by (simp add: makeRequest_def)
    from loop_last [OF l] have ij: "cursor st < j"
      and mid: "\<forall>k. cursor st \<le> k \<and> k < j - 1 \<longrightarrow> (\<exists>st. net k = Rejected st)"
      and lst: "case r of Inr d \<Rightarrow> net (j - 1) = Resolved d | Inl e \<Rightarrow> \<exists>st. net (j - 1) = Rejected st"
      by simp_all
    have step: "fetch_loop (Suc fuel) net st = fetch_loop fuel net (fetch_page net st)" for fuel
      using True by (simp add: fetch_loop.simps)
    from mid assms(1) less.prems have nn: "\<not> n < j - 1"
      by (metis outcome.distinct(1))
    show ?thesis
    proof (cases "n = j - 1")
      case True
      with lst assms(1) obtain r': "r = Inr d"
        by (cases r) auto
      from fetch_page_last [OF run [unfolded r'] assms(2)]
      have "fetch_loop 0 net (fetch_page net st) = Some (fetch_page net st)"
        by (simp add: fetch_loop.simps)
      with step [of 0] show ?thesis by metis
    next
      case False
      with nn have jn: "j \<le> n" by simp
      have c: "cursor (fetch_page net st) = j"
        by (rule cursor_fetch_page [OF run])
      have "n - cursor (fetch_page net st) < n - cursor st"
        using ij jn c by simp
      from less.hyps [OF this] jn c obtain fuel st' where
        "fetch_loop fuel net (fetch_page net st) = Some st'"
        by auto
      with step [of fuel] show ?thesis by metis
    qed
  qed
qed

lemma fetch_three_pages:
  "fetchAllPatients 3 three_pages = Some [1, 2, 3, 4, 5, 6, 7, 8, 9, 10, 11]"
  by (simp add: fetchAllPatients_def fetch_start_def fetch_loop.simps fetch_page_def
        req_eval three_pages_def)

text \<open>
  The ceiling is applied where a page fails: when every request is answered with status
  500, each page takes three calls, and the loop stops after the failure of page 15.
\<close>

lemma fetch_page_failure:
  assumes "makeRequest 3 net (cursor st) = (Inl e, j, s')"
  shows "fetch_page net st =
           st\<lparr>requested := requested st @ [page st], page := page st + 1, cursor := j,
              hasMore := (hasMore st \<and> page st + 1 \<le> 15)\<rparr>"
  using assms by (auto simp: fetch_page_def Let_def)

lemma makeRequest_server_errors:
  "makeRequest 3 (\<lambda>i. Rejected (Some 500)) i =
     (Inl (RequestError (Some 500)), i + 3, \<lparr>attempt = 3, rateLimitAttempts = 0\<rparr>)"
  by (simp add: req_eval add.assoc)

lemma server_error_passes:
  "n \<le> 15 \<Longrightarrow>
   (fetch_page (\<lambda>i. Rejected (Some 500)) ^^ n) fetch_start =
     \<lparr>allPatients = [], page = n + 1, hasMore = (n < 15), cursor = 3 * n, requested = [1..<n + 1]\<rparr>"
proof (induction n)
  case 0
  show ?case by (simp add: fetch_start_def)
next
  case (Suc n)
  then show ?case
    by (simp add: fetch_page_failure [OF makeRequest_server_errors]) arith
qed

lemma fetch_loop_unroll:
  assumes "\<forall>k < n. hasMore ((fetch_page net ^^ k) st)" and "\<not> hasMore ((fetch_page net ^^ n) st)"
  shows "fetch_loop (n + m) net st = Some ((fetch_page net ^^ n) st)"
  using assms
proof (induction n arbitrary: st)
  case 0
  then show ?case
    by (simp add: fetch_loop.simps)
next
  case (Suc n)
  from Suc.prems(1) have hm: "hasMore st"
    by (metis funpow_0 zero_less_Suc)
  have a: "\<forall>k < n. hasMore ((fetch_page net ^^ k) (fetch_page net st))"
    using Suc.prems(1) by (metis Suc_less_eq funpow_Suc_right o_apply)
  have b: "\<not> hasMore ((fetch_page net ^^ n) (fetch_page net st))"
    using Suc.prems(2) by (simp add: funpow_swap1)
  from Suc.IH [OF a b] hm show ?case
    by (simp add: fetch_loop.simps [of "Suc (n + m)"] funpow_swap1)
qed

lemma fetch_stops_at_ceiling_after_failures:
  "fetchAllPatients 15 (\<lambda>i. Rejected (Some 500)) = Some [] \<and>
   requested ((fetch_page (\<lambda>i. Rejected (Some 500) :: nat body outcome) ^^ 15) fetch_start) = [1..<16]"
proof -
  have "fetch_loop (15 + 0) (\<lambda>i. Rejected (Some 500)) fetch_start =
      Some ((fetch_page (\<lambda>i. Rejected (Some 500)) ^^ 15) (fetch_start :: 'a fetch_state))"
    by (rule fetch_loop_unroll) (simp_all add: server_error_passes)
  then show ?thesis
    by (simp add: fetchAllPatients_def server_error_passes)
qed

text \<open>
  C3, at an input where the code departs from it. When every request is answered with
  a full page of five records, the loop of \<open>fetchAllPatients\<close> never ends, whatever the
  fuel; after fifteen passes it is still running with \<open>page = 16\<close>, and its sixteenth pass
  requests page 16, beyond the ceiling of 15.
\<close>

theorem fetch_passes_page_ceiling:
  "(\<forall>fuel. fetchAllPatients fuel full_pages = None) \<and>
   hasMore ((fetch_page full_pages ^^ 15) fetch_start) \<and>
   page ((fetch_page full_pages ^^ 15) fetch_start) = 16 \<and>
   requested ((fetch_page full_pages ^^ 16) fetch_start) = [1..<17]"
proof -
  have "fetch_loop fuel full_pages fetch_start = None" for fuel
  proof (rule fetch_loop_running)
    show "hasMore (fetch_start :: nat fetch_state)"
      by (simp add: fetch_start_def)
    show "hasMore (fetch_page full_pages st)" if "hasMore st" for st
      using that by (simp add: fetch_page_full)
  qed
  then have a: "\<forall>fuel. fetchAllPatients fuel full_pages = None"
    by (simp add: fetchAllPatients_def)
  show ?thesis
    using a by (simp add: full_pages_passes)
qed

text \<open>
  Where some response is a last page, \<open>fetchAllPatients\<close> returns, and what it returns is
  the concatenation of the records of the outcomes read, in the order of the calls.
\<close>

lemma fetch_returns_when_data_ends:
  assumes "net n = Resolved d" and "last_page d"
  shows "\<exists>fuel st. fetch_loop fuel net fetch_start = Some st \<and>
           fetchAllPatients fuel net =
             Some (concat (map (\<lambda>k. records_of (net k)) [0..<cursor st]))"
proof -
  have "cursor (fetch_start :: 'a fetch_state) \<le> n"
    by (simp add: fetch_start_def)
  with assms have "\<exists>fuel st'. fetch_loop fuel net fetch_start = Some st'"
    by (rule fetch_loop_returns)
  then obtain fuel st where run: "fetch_loop fuel net fetch_start = Some st"
    by blast
  from fetch_returns_concatenation [OF run] run show ?thesis
    by (auto simp: fetchAllPatients_def)
qed

text \<open>
  C7, at an input where the code departs from it. When every request is answered with
  status 200 and an empty body, \<open>fetchAllPatients\<close> returns nothing: its loop is still
  running after any number of passes.
\<close>

theorem fetch_never_returns_on_empty_bodies:
  "\<forall>fuel. fetchAllPatients fuel empty_bodies = None"
proof -
  have "fetch_loop fuel empty_bodies fetch_start = None" for fuel
  proof (rule fetch_loop_running)
    show "hasMore (fetch_start :: nat fetch_state)"
      by (simp add: fetch_start_def)
    show "hasMore (fetch_page empty_bodies st)" if "hasMore st" for st
      using that by (simp add: fetch_page_empty)
  qed
  then show ?thesis
    by (simp add: fetchAllPatients_def)
qed

end
